theory Spec2Isabelle
  imports Main "HOL-Library.Sublist" "HOL-Library.Multiset"
begin

section \<open>The files table (database.py)\<close>

text \<open>
  SQLite stores dynamically typed values; a row of the table \<open>files\<close> maps each column
  name to its value. The table is the list of its rows in rowid order, which is the
  insertion order (\<open>id INTEGER PRIMARY KEY AUTOINCREMENT\<close>). The flag columns hold the
  integers 0 and 1. Conversions by column affinity are not modelled: a value is stored
  as it is given.
\<close>

datatype val = Null | Num int | Text string

type_synonym row = "string \<Rightarrow> val"

type_synonym table = "row list"

datatype error =
    KeyError | TypeError | InterfaceError | OperationalError | IntegrityError | ValueError
  | IOError | TimeoutExpired | SubprocessError | OSError | FileNotFoundError

definition columns :: "string list" where
  "columns =
     [''id'', ''filepath'', ''filename'', ''original_filename'', ''file_type'',
      ''file_size'', ''file_hash'', ''perceptual_hash'', ''width'', ''height'',
      ''created_date'', ''modified_date'', ''exif_data'', ''description'', ''tags'',
      ''ai_analyzed'', ''is_duplicate'', ''duplicate_of'', ''is_junk'', ''junk_reason'',
      ''scan_date'']"

text \<open>The primary key: no two rows of a table share an id.\<close>

definition ids_of :: "table \<Rightarrow> val list" where
  "ids_of t = map (\<lambda>r. r ''id'') t"

definition wf_table :: "table \<Rightarrow> bool" where
  "wf_table t = distinct (ids_of t)"


subsection \<open>upsert\_file\<close>

text \<open>
  The values a \<open>file_data\<close> dict carries. \<open>PyJson s\<close> stands for a list or a dict whose
  \<open>json.dumps\<close> text is \<open>s\<close>. The dict is the list of its items in insertion order; its
  keys are distinct.
\<close>

datatype pyval = PyNone | PyInt int | PyStr string | PyJson string

type_synonym file_data = "(string \<times> pyval) list"

text \<open>\<open>json.dumps(v) if isinstance(v, (list, dict)) else v\<close>, bound as an SQL parameter.\<close>

definition bind_val :: "pyval \<Rightarrow> val" where
  "bind_val v = (case v of PyNone \<Rightarrow> Null | PyInt n \<Rightarrow> Num n | PyStr s \<Rightarrow> Text s | PyJson s \<Rightarrow> Text s)"

text \<open>
  The row an \<open>INSERT\<close> starts from: the columns with a \<open>DEFAULT 0\<close> hold 0, every other
  column is \<open>NULL\<close>.
\<close>

definition default_row :: row where
  "default_row =
     (\<lambda>_. Null)(''ai_analyzed'' := Num 0, ''is_duplicate'' := Num 0, ''is_junk'' := Num 0)"

definition is_num :: "val \<Rightarrow> bool" where
  "is_num v = (case v of Num _ \<Rightarrow> True | _ \<Rightarrow> False)"

definition row_id :: "row \<Rightarrow> int" where
  "row_id r = (case r ''id'' of Num n \<Rightarrow> n | _ \<Rightarrow> 0)"

text \<open>
  The constraints of the schema that a write is checked against: \<open>id\<close> is an integer
  primary key, \<open>filepath\<close>, \<open>filename\<close> and \<open>file_type\<close> are \<open>NOT NULL\<close>, and
  \<open>filepath\<close> is \<open>UNIQUE\<close>. Foreign keys are not enforced (SQLite's default).
\<close>

definition constraints_ok :: "table \<Rightarrow> bool" where
  "constraints_ok t =
     ((\<forall>r \<in> set t. is_num (r ''id'') \<and> r ''filepath'' \<noteq> Null \<and> r ''filename'' \<noteq> Null
                    \<and> r ''file_type'' \<noteq> Null)
      \<and> distinct (map (\<lambda>r. r ''id'') t) \<and> distinct (map (\<lambda>r. r ''filepath'') t))"

text \<open>The assignments \<open>k = ?\<close> of a statement, applied to one row in the order of the dict.\<close>

definition assign1 :: "string \<times> pyval \<Rightarrow> row \<Rightarrow> row" where
  "assign1 kv r = r(fst kv := bind_val (snd kv))"

definition assign :: "file_data \<Rightarrow> row \<Rightarrow> row" where
  "assign kvs r = fold assign1 kvs r"

text \<open>
  The id \<open>AUTOINCREMENT\<close> gives a new row: one more than the largest id. No statement
  of the program deletes a row, so the largest id ever used is the largest id present.
\<close>

definition next_id :: "table \<Rightarrow> int" where
  "next_id t = fold max (map row_id t) 0 + 1"

text \<open>
  \<open>upsert_file(conn, file_data)\<close> returns the new table and the id. \<open>file_data["filepath"]\<close>
  raises \<open>KeyError\<close> when the key is missing; the path is bound as it is, so a list or a
  dict there is refused by the driver. A key that is no column of the table, or an
  \<open>UPDATE\<close> with no assignment at all (\<open>file_data\<close> holding the path only), is an
  \<open>OperationalError\<close>; a violated constraint is an \<open>IntegrityError\<close>. A statement that
  fails leaves the table as it was. The rows are kept in rowid order.
\<close>

definition upsert_file :: "table \<Rightarrow> file_data \<Rightarrow> error + (table \<times> val)" where
  "upsert_file t file_data =
     (case map_of file_data ''filepath'' of
        None \<Rightarrow> Inl KeyError
      | Some (PyJson _) \<Rightarrow> Inl InterfaceError
      | Some p \<Rightarrow>
          (case find (\<lambda>r. bind_val p \<noteq> Null \<and> r ''filepath'' = bind_val p) t of
             Some existing \<Rightarrow>
               (let sets = filter (\<lambda>(k, v). k \<noteq> ''filepath'') file_data in
                if sets = [] \<or> (\<exists>k \<in> set (map fst sets). k \<notin> set columns)
                then Inl OperationalError
                else
                  (let t' = sort_key row_id
                              (map (\<lambda>r. if r ''filepath'' = bind_val p then assign sets r else r) t)
                   in if constraints_ok t' then Inr (t', existing ''id'') else Inl IntegrityError))
           | None \<Rightarrow>
               (if \<exists>k \<in> set (map fst file_data). k \<notin> set columns
                then Inl OperationalError
                else
                  (let new = assign file_data default_row;
                       new = (if new ''id'' = Null then new(''id'' := Num (next_id t)) else new);
                       t' = sort_key row_id (t @ [new])
                   in if constraints_ok t' then Inr (t', new ''id'') else Inl IntegrityError))))"

section \<open>The Duplicate Resolver (scanner.py, find\_duplicates)\<close>

subsection \<open>Exact duplicates\<close>

text \<open>
  \<open>SELECT file_hash, GROUP_CONCAT(id) FROM files WHERE file_hash IS NOT NULL
  GROUP BY file_hash HAVING COUNT(*) > 1\<close>: one list of ids per digest that more than
  one row carries, the ids of a group in rowid order. SQLite leaves the order of the
  groups open; the groups are taken here in the order \<open>remdups\<close> gives.
\<close>

definition exact_groups :: "table \<Rightarrow> val list list" where
  "exact_groups t =
     filter (\<lambda>ids. length ids > 1)
       (map (\<lambda>h. map (\<lambda>r. r ''id'') (filter (\<lambda>r. r ''file_hash'' = h) t))
            (remdups (map (\<lambda>r. r ''file_hash'') (filter (\<lambda>r. r ''file_hash'' \<noteq> Null) t))))"

text \<open>\<open>UPDATE files SET is_duplicate = 1, duplicate_of = ? WHERE id = ?\<close>\<close>

definition set_dup :: "val \<Rightarrow> row \<Rightarrow> row" where
  "set_dup orig r = r(''is_duplicate'' := Num 1, ''duplicate_of'' := orig)"

definition update_exact :: "val \<Rightarrow> val \<Rightarrow> table \<Rightarrow> table" where
  "update_exact original_id dup_id t =
     map (\<lambda>r. if r ''id'' = dup_id then set_dup original_id r else r) t"

text \<open>\<open>for dup_id in ids[1:]\<close>\<close>

fun mark_group :: "val \<Rightarrow> val list \<Rightarrow> table \<Rightarrow> table" where
  "mark_group original_id [] t = t"
| "mark_group original_id (dup_id # ds) t =
     mark_group original_id ds (update_exact original_id dup_id t)"

text \<open>
  \<open>for row in rows\<close>, with \<open>original_id = ids[0]\<close>. A group has at least two ids
  (\<open>HAVING COUNT(*) > 1\<close>), so \<open>ids[0]\<close> exists; the empty case is there for totality.
\<close>

fun exact_loop :: "val list list \<Rightarrow> table \<Rightarrow> table" where
  "exact_loop [] t = t"
| "exact_loop ([] # rest) t = exact_loop rest t"
| "exact_loop ((original_id # ds) # rest) t = exact_loop rest (mark_group original_id ds t)"

definition exact_phase :: "table \<Rightarrow> table" where
  "exact_phase t = exact_loop (exact_groups t) t"

subsection \<open>Near duplicates\<close>

text \<open>
  \<open>imagehash.hex_to_hash\<close> and the difference of two hashes belong to a library. They
  are modelled on the tokens that \<open>compute_perceptual_hash\<close> stores, the 16 hexadecimal
  digits of an 8 by 8 hash: such a token is the list of its 64 bits, and the difference
  of two hashes is the number of positions where they differ. Any other value is
  reported as an error here.
\<close>

definition hex_digit :: "char \<Rightarrow> nat option" where
  "hex_digit c =
     (let n = (of_char c :: nat) in
      if 48 \<le> n \<and> n \<le> 57 then Some (n - 48)
      else if 97 \<le> n \<and> n \<le> 102 then Some (n - 87)
      else if 65 \<le> n \<and> n \<le> 70 then Some (n - 55)
      else None)"

definition nibble :: "nat \<Rightarrow> bool list" where
  "nibble n = [odd (n div 8), odd (n div 4), odd (n div 2), odd n]"

fun hex_bits :: "string \<Rightarrow> bool list option" where
  "hex_bits [] = Some []"
| "hex_bits (c # cs) =
     (case hex_digit c of
        None \<Rightarrow> None
      | Some n \<Rightarrow> (case hex_bits cs of None \<Rightarrow> None | Some bs \<Rightarrow> Some (nibble n @ bs)))"

definition hex_to_hash :: "val \<Rightarrow> error + bool list" where
  "hex_to_hash v =
     (case v of
        Text s \<Rightarrow>
          (if length s = 16 then
             (case hex_bits s of None \<Rightarrow> Inl ValueError | Some bs \<Rightarrow> Inr bs)
           else Inl ValueError)
      | _ \<Rightarrow> Inl ValueError)"

definition hash_distance :: "bool list \<Rightarrow> bool list \<Rightarrow> nat" where
  "hash_distance a b = length (filter (\<lambda>(x, y). x \<noteq> y) (zip a b))"

text \<open>
  \<open>SELECT id, perceptual_hash FROM files WHERE perceptual_hash IS NOT NULL
  AND is_duplicate = 0 AND file_type = 'image'\<close>, in rowid order.
\<close>

definition phash_rows :: "table \<Rightarrow> (val \<times> val) list" where
  "phash_rows t =
     map (\<lambda>r. (r ''id'', r ''perceptual_hash''))
       (filter (\<lambda>r. r ''perceptual_hash'' \<noteq> Null \<and> r ''is_duplicate'' = Num 0
                     \<and> r ''file_type'' = Text ''image'') t)"

text \<open>The list comprehension building \<open>phash_list\<close>: the first failing conversion raises.\<close>

fun phash_list :: "(val \<times> val) list \<Rightarrow> error + (val \<times> bool list) list" where
  "phash_list [] = Inr []"
| "phash_list ((i, p) # rest) =
     (case hex_to_hash p of
        Inl e \<Rightarrow> Inl e
      | Inr h \<Rightarrow> (case phash_list rest of Inl e \<Rightarrow> Inl e | Inr hs \<Rightarrow> Inr ((i, h) # hs)))"

text \<open>\<open>UPDATE files SET is_duplicate = 1, duplicate_of = ? WHERE id = ? AND is_duplicate = 0\<close>\<close>

definition update_near :: "val \<Rightarrow> val \<Rightarrow> table \<Rightarrow> table" where
  "update_near id_a id_b t =
     map (\<lambda>r. if r ''id'' = id_b \<and> r ''is_duplicate'' = Num 0 then set_dup id_a r else r) t"

text \<open>
  The inner loop over the entries \<open>j > i\<close> of \<open>phash_list\<close>, and the outer loop over
  the entries \<open>i\<close>: the entries after position \<open>i\<close> are the rest of the list.
\<close>

fun near_inner :: "val \<Rightarrow> bool list \<Rightarrow> (val \<times> bool list) list \<Rightarrow> table \<Rightarrow> table" where
  "near_inner id_a hash_a [] t = t"
| "near_inner id_a hash_a ((id_b, hash_b) # rest) t =
     near_inner id_a hash_a rest
       (if hash_distance hash_a hash_b \<le> 8 then update_near id_a id_b t else t)"

fun near_outer :: "(val \<times> bool list) list \<Rightarrow> table \<Rightarrow> table" where
  "near_outer [] t = t"
| "near_outer ((id_a, hash_a) # rest) t = near_outer rest (near_inner id_a hash_a rest t)"

definition find_duplicates :: "table \<Rightarrow> error + table" where
  "find_duplicates t =
     (let t1 = exact_phase t in
      case phash_list (phash_rows t1) of
        Inl e \<Rightarrow> Inl e
      | Inr pl \<Rightarrow> Inr (near_outer pl t1))"

subsection \<open>The resolver row by row\<close>

text \<open>
  Every statement of the resolver is an \<open>UPDATE\<close> that rewrites rows one by one, so a run
  is a map over the table. The functions below say what a run does to a single row; the
  lemmas relate them to the loops above.
\<close>

text \<open>The rows that carry the digest of \<open>r\<close>, in insertion order.\<close>

definition same_digest :: "table \<Rightarrow> row \<Rightarrow> table" where
  "same_digest t r = filter (\<lambda>x. x ''file_hash'' = r ''file_hash'') t"

text \<open>
  What the exact phase does to a row of \<open>t\<close>: a row with a digest that another row
  shares, and which is not the first of them, is marked and linked to the first.
\<close>

definition exact_row :: "table \<Rightarrow> row \<Rightarrow> row" where
  "exact_row t r =
     (if r ''file_hash'' \<noteq> Null \<and> length (same_digest t r) > 1
         \<and> r ''id'' \<noteq> hd (same_digest t r) ''id''
      then set_dup (hd (same_digest t r) ''id'') r else r)"

definition row_exact :: "val list list \<Rightarrow> row \<Rightarrow> row" where
  "row_exact gs r =
     (case find (\<lambda>g. r ''id'' \<in> set (tl g)) (rev gs) of
        None \<Rightarrow> r
      | Some g \<Rightarrow> set_dup (hd g) r)"

definition near_row :: "val \<Rightarrow> val \<Rightarrow> row \<Rightarrow> row" where
  "near_row id_a id_b r =
     (if r ''id'' = id_b \<and> r ''is_duplicate'' = Num 0 then set_dup id_a r else r)"

fun row_near_inner :: "val \<Rightarrow> bool list \<Rightarrow> (val \<times> bool list) list \<Rightarrow> row \<Rightarrow> row" where
  "row_near_inner id_a hash_a [] r = r"
| "row_near_inner id_a hash_a ((id_b, hash_b) # rest) r =
     row_near_inner id_a hash_a rest
       (if hash_distance hash_a hash_b \<le> 8 then near_row id_a id_b r else r)"

fun row_near_outer :: "(val \<times> bool list) list \<Rightarrow> row \<Rightarrow> row" where
  "row_near_outer [] r = r"
| "row_near_outer ((id_a, hash_a) # rest) r =
     row_near_outer rest (row_near_inner id_a hash_a rest r)"

text \<open>
  \<open>outer_hit pl b\<close>: some entry of \<open>pl\<close> lies within distance 8 of a later entry whose
  id is \<open>b\<close>.
\<close>

definition inner_hit :: "bool list \<Rightarrow> (val \<times> bool list) list \<Rightarrow> val \<Rightarrow> bool" where
  "inner_hit hash_a rest b = (\<exists>(b', hash_b) \<in> set rest. b' = b \<and> hash_distance hash_a hash_b \<le> 8)"

fun outer_hit :: "(val \<times> bool list) list \<Rightarrow> val \<Rightarrow> bool" where
  "outer_hit [] b = False"
| "outer_hit ((id_a, hash_a) # rest) b = (inner_hit hash_a rest b \<or> outer_hit rest b)"

subsection \<open>Example tables\<close>

text \<open>The id, the flag and the link of every row.\<close>

definition links :: "table \<Rightarrow> (val \<times> val \<times> val) list" where
  "links t = map (\<lambda>r. (r ''id'', r ''is_duplicate'', r ''duplicate_of'')) t"

text \<open>The id, the digest, the flag and the link of every row.\<close>

definition digest_links :: "table \<Rightarrow> (val \<times> val \<times> val \<times> val) list" where
  "digest_links t =
     map (\<lambda>r. (r ''id'', r ''file_hash'', r ''is_duplicate'', r ''duplicate_of'')) t"

definition image_row :: "int \<Rightarrow> string \<Rightarrow> string \<Rightarrow> val \<Rightarrow> row" where
  "image_row i path digest phash =
     default_row(''id'' := Num i, ''filepath'' := Text path, ''filename'' := Text path,
       ''file_type'' := Text ''image'', ''file_hash'' := Text digest,
       ''perceptual_hash'' := phash)"

text \<open>
  Three images with distinct digests. The fingerprints of the first and the second differ
  in 8 bits, those of the second and the third in 8 bits, those of the first and the
  third in 16 bits.
\<close>

definition chain_table :: table where
  "chain_table =
     [image_row 1 ''/a.jpg'' ''da'' (Text ''0000000000000000''),
      image_row 2 ''/b.jpg'' ''db'' (Text ''00000000000000ff''),
      image_row 3 ''/c.jpg'' ''dc'' (Text ''000000000000ffff'')]"

text \<open>Files A, B and C with one digest, and D with another.\<close>

definition abcd_table :: table where
  "abcd_table =
     [image_row 1 ''/A.jpg'' ''same'' Null, image_row 2 ''/B.jpg'' ''same'' Null,
      image_row 3 ''/C.jpg'' ''same'' Null, image_row 4 ''/D.jpg'' ''other'' Null]"

text \<open>
  A rescan: two files with one digest are inserted and resolved, the second file is
  scanned again with a new digest (the scanner's \<open>file_data\<close> names neither
  \<open>is_duplicate\<close> nor \<open>duplicate_of\<close>), and the resolver runs again.
\<close>

definition scan_data :: "string \<Rightarrow> string \<Rightarrow> file_data" where
  "scan_data path digest =
     [(''filepath'', PyStr path), (''filename'', PyStr path), (''file_type'', PyStr ''image''),
      (''file_size'', PyInt 1000), (''file_hash'', PyStr digest)]"

definition then_upsert :: "error + table \<Rightarrow> file_data \<Rightarrow> error + table" where
  "then_upsert x file_data =
     (case x of Inl e \<Rightarrow> Inl e
      | Inr t \<Rightarrow> (case upsert_file t file_data of Inl e \<Rightarrow> Inl e | Inr (t', i) \<Rightarrow> Inr t'))"

definition then_resolve :: "error + table \<Rightarrow> error + table" where
  "then_resolve x = (case x of Inl e \<Rightarrow> Inl e | Inr t \<Rightarrow> find_duplicates t)"

definition rescan_run :: "error + table" where
  "rescan_run =
     then_resolve
       (then_upsert
          (then_resolve
             (then_upsert (then_upsert (Inr []) (scan_data ''/a.jpg'' ''h''))
                (scan_data ''/b.jpg'' ''h'')))
          (scan_data ''/b.jpg'' ''k''))"

text \<open>A table in which the second row carries a mark and a link from an earlier run.\<close>

definition stale_table :: table where
  "stale_table =
     [image_row 1 ''/a.jpg'' ''h'' Null,
      (image_row 2 ''/b.jpg'' ''k'' Null)(''is_duplicate'' := Num 1, ''duplicate_of'' := Num 1)]"

text \<open>The update that \<open>analyze_file\<close> writes for the second file of \<open>abcd_table\<close>.\<close>

definition ai_data :: file_data where
  "ai_data =
     [(''filepath'', PyStr ''/B.jpg''), (''description'', PyStr ''a cat on a sofa''),
      (''tags'', PyJson ''[]''), (''ai_analyzed'', PyInt 1)]"

section \<open>Frame sampling (scanner.py, extract\_video\_frames)\<close>

text \<open>
  The outcome of one \<open>subprocess.run\<close>: the tool ran to its end, leaving an output file
  of the given size (whatever its exit status, which the code does not look at), or the
  call raised.
\<close>

datatype run_result = Completed nat | Raised error

text \<open>The calls of the external tools, with the \<open>timeout\<close> each is given.\<close>

datatype tool_call = Ffprobe nat | Ffmpeg nat nat

text \<open>
  The environment of a call: whether the duration probe raises (its output only moves
  the time stamps), the temporary file \<open>NamedTemporaryFile\<close> creates for frame \<open>i\<close> (or
  the error it raises), and what \<open>ffmpeg\<close> does for frame \<open>i\<close>.
\<close>

record tool_env =
  ffprobe :: "error option"
  mktemp :: "nat \<Rightarrow> error + string"
  ffmpeg :: "nat \<Rightarrow> run_result"

record frame_state =
  frames :: "string list"
  created_temps :: "string list"
  disk :: "string set"
  calls :: "tool_call list"

text \<open>
  \<open>for i in range(num_frames)\<close>. The loop ends with the exception that left it, if any.
  \<open>os.path.getsize\<close> and \<open>os.unlink\<close> of a file that the call has created are taken
  to succeed.
\<close>

fun frame_loop :: "tool_env \<Rightarrow> nat list \<Rightarrow> frame_state \<Rightarrow> error option \<times> frame_state" where
  "frame_loop env [] s = (None, s)"
| "frame_loop env (i # rest) s =
     (case mktemp env i of
        Inl e \<Rightarrow> (Some e, s)
      | Inr name \<Rightarrow>
          (let s1 = s\<lparr>created_temps := created_temps s @ [name], disk := insert name (disk s)\<rparr>;
               s2 = s1\<lparr>calls := calls s1 @ [Ffmpeg i 30]\<rparr>
           in case ffmpeg env i of
                Raised e \<Rightarrow> (Some e, s2)
              | Completed sz \<Rightarrow>
                  if sz > 0 then frame_loop env rest (s2\<lparr>frames := frames s2 @ [name]\<rparr>)
                  else frame_loop env rest
                         (s2\<lparr>disk := disk s2 - {name},
                             created_temps := remove1 name (created_temps s2)\<rparr>)))"

text \<open>
  \<open>except (subprocess.TimeoutExpired, subprocess.SubprocessError, OSError)\<close>;
  \<open>IOError\<close> is another name of \<open>OSError\<close> and \<open>FileNotFoundError\<close> is a subclass of
  it, so the first clause takes both and the second clause is never reached.
\<close>

definition caught :: "error \<Rightarrow> bool" where
  "caught e =
     (e = TimeoutExpired \<or> e = SubprocessError \<or> e = OSError \<or> e = IOError
      \<or> e = FileNotFoundError)"

text \<open>The handler: every created file that is not in \<open>frames\<close> is unlinked.\<close>

definition cleanup :: "frame_state \<Rightarrow> frame_state" where
  "cleanup s =
     s\<lparr>disk := fold (\<lambda>tmp_path d. if tmp_path \<notin> set (frames s) then d - {tmp_path} else d)
                  (created_temps s) (disk s)\<rparr>"

record frame_result =
  returned :: "error + string list"
  disk_after :: "string set"
  calls_made :: "tool_call list"

definition finish :: "error option \<Rightarrow> frame_state \<Rightarrow> frame_result" where
  "finish exc s =
     (case exc of
        None \<Rightarrow> \<lparr>returned = Inr (frames s), disk_after = disk s, calls_made = calls s\<rparr>
      | Some e \<Rightarrow>
          if caught e
          then \<lparr>returned = Inr (frames s), disk_after = disk (cleanup s), calls_made = calls s\<rparr>
          else \<lparr>returned = Inl e, disk_after = disk s, calls_made = calls s\<rparr>)"

definition extract_video_frames :: "tool_env \<Rightarrow> int \<Rightarrow> string set \<Rightarrow> frame_result" where
  "extract_video_frames env num_frames disk0 =
     (let s0 = \<lparr>frames = [], created_temps = [], disk = disk0, calls = [Ffprobe 30]\<rparr>
      in case ffprobe env of
           Some e \<Rightarrow> finish (Some e) s0
         | None \<Rightarrow> (case frame_loop env [0..<nat num_frames] s0 of (exc, s) \<Rightarrow> finish exc s))"

text \<open>
  The temporary names are new: no two frames get the same name, and no name is that of
  a file present before the call.
\<close>

definition fresh_names :: "tool_env \<Rightarrow> string set \<Rightarrow> bool" where
  "fresh_names env disk0 =
     ((\<forall>i j a. mktemp env i = Inr a \<and> mktemp env j = Inr a \<longrightarrow> i = j)
      \<and> (\<forall>i a. mktemp env i = Inr a \<longrightarrow> a \<notin> disk0))"

definition timeout_of :: "tool_call \<Rightarrow> nat" where
  "timeout_of c = (case c of Ffprobe t \<Rightarrow> t | Ffmpeg i t \<Rightarrow> t)"

text \<open>Frame \<open>j\<close> gets its temporary file and its tool call returns.\<close>

definition frame_returns :: "tool_env \<Rightarrow> nat \<Rightarrow> bool" where
  "frame_returns env j = (\<not> isl (mktemp env j) \<and> (case ffmpeg env j of Completed _ \<Rightarrow> True | Raised _ \<Rightarrow> False))"

text \<open>Two temporary names; the first call of \<open>ffmpeg\<close> times out.\<close>

definition timeout_env :: tool_env where
  "timeout_env =
     \<lparr>ffprobe = None,
      mktemp = (\<lambda>i. if i = 0 then Inr ''/tmp/tmp0.jpg''
                     else if i = 1 then Inr ''/tmp/tmp1.jpg'' else Inl OSError),
      ffmpeg = (\<lambda>i. if i = 0 then Raised TimeoutExpired else Completed 2048)\<rparr>"

text \<open>The first frame is extracted, the second call of \<open>ffmpeg\<close> fails.\<close>

definition second_fails_env :: tool_env where
  "second_fails_env =
     \<lparr>ffprobe = None,
      mktemp = (\<lambda>i. if i = 0 then Inr ''/tmp/tmp0.jpg''
                     else if i = 1 then Inr ''/tmp/tmp1.jpg'' else Inl OSError),
      ffmpeg = (\<lambda>i. if i = 0 then Completed 2048 else Raised SubprocessError)\<rparr>"

text \<open>
  The frames that the calls for the positions \<open>js\<close> extract, in order: the temporary
  file of every position whose tool call returns and leaves an output that is not
  empty.
\<close>

definition extracted :: "tool_env \<Rightarrow> nat list \<Rightarrow> string list" where
  "extracted env js =
     concat (map (\<lambda>j. case mktemp env j of
                        Inl e \<Rightarrow> []
                      | Inr name \<Rightarrow>
                          (case ffmpeg env j of
                             Completed sz \<Rightarrow> if sz > 0 then [name] else []
                           | Raised e \<Rightarrow> [])) js)"

text \<open>
  The first frame is extracted, the second call of \<open>ffmpeg\<close> leaves an empty file, the
  third times out.
\<close>

definition mixed_env :: tool_env where
  "mixed_env =
     \<lparr>ffprobe = None,
      mktemp = (\<lambda>i. if i = 0 then Inr ''/tmp/tmp0.jpg''
                     else if i = 1 then Inr ''/tmp/tmp1.jpg''
                     else if i = 2 then Inr ''/tmp/tmp2.jpg'' else Inl OSError),
      ffmpeg = (\<lambda>i. if i = 0 then Completed 2048
                     else if i = 1 then Completed 0 else Raised TimeoutExpired)\<rparr>"

text \<open>
  At the head of an iteration every created file is a frame, and the disk holds the
  files it held before the call and the frames.
\<close>

definition at_head :: "tool_env \<Rightarrow> string set \<Rightarrow> nat list \<Rightarrow> frame_state \<Rightarrow> bool" where
  "at_head env disk0 rest s =
     (created_temps s = frames s \<and> disk s = disk0 \<union> set (frames s)
      \<and> (\<forall>a \<in> set (frames s). \<exists>j. j \<notin> set rest \<and> mktemp env j = Inr a))"

section \<open>Paths and configuration (config.py, os.path)\<close>

definition IMAGE_EXTENSIONS :: "string list" where
  "IMAGE_EXTENSIONS =
     [''.jpg'', ''.jpeg'', ''.png'', ''.gif'', ''.bmp'', ''.tiff'', ''.tif'', ''.webp'',
      ''.heic'', ''.heif'', ''.raw'', ''.cr2'', ''.nef'', ''.arw'', ''.svg'', ''.ico'']"

definition VIDEO_EXTENSIONS :: "string list" where
  "VIDEO_EXTENSIONS =
     [''.mp4'', ''.mov'', ''.avi'', ''.mkv'', ''.wmv'', ''.flv'', ''.webm'', ''.m4v'',
      ''.mpg'', ''.mpeg'', ''.3gp'']"

definition JUNK_SIZE_THRESHOLD :: int where
  "JUNK_SIZE_THRESHOLD = 10000"

definition BATCH_SIZE :: nat where
  "BATCH_SIZE = 10"

text \<open>\<open>str.lower\<close> on the letters of ASCII; a \<open>char\<close> is a byte.\<close>

definition lower_char :: "char \<Rightarrow> char" where
  "lower_char c =
     (let n = (of_char c :: nat) in if 65 \<le> n \<and> n \<le> 90 then char_of (n + 32) else c)"

definition lower :: "string \<Rightarrow> string" where
  "lower s = map lower_char s"

text \<open>\<open>os.path.basename\<close>: what follows the last slash.\<close>

definition basename :: "string \<Rightarrow> string" where
  "basename p = rev (takeWhile (\<lambda>c. c \<noteq> CHR ''/'') (rev p))"

text \<open>
  \<open>os.path.splitext(p)[1]\<close>: the extension starts at the last dot of the base name,
  provided a character other than a dot comes before it in the base name; otherwise it
  is empty.
\<close>

definition ext_of :: "string \<Rightarrow> string" where
  "ext_of b =
     (let tail = takeWhile (\<lambda>c. c \<noteq> CHR ''.'') (rev b) in
      if length tail = length b then []
      else (let stem = take (length b - length tail - 1) b in
            if \<exists>c \<in> set stem. c \<noteq> CHR ''.'' then drop (length stem) b else []))"

definition splitext_ext :: "string \<Rightarrow> string" where
  "splitext_ext p = ext_of (basename p)"

text \<open>\<open>os.path.join(a, b)\<close>\<close>

definition join_path :: "string \<Rightarrow> string \<Rightarrow> string" where
  "join_path a b =
     (if b \<noteq> [] \<and> hd b = CHR ''/'' then b
      else if a = [] \<or> last a = CHR ''/'' then a @ b
      else a @ ''/'' @ b)"

text \<open>\<open>p in s\<close> for strings, \<open>s.startswith(p)\<close>, \<open>sep.join(xs)\<close> and \<open>str(n)\<close>.\<close>

fun contains :: "string \<Rightarrow> string \<Rightarrow> bool" where
  "contains p [] = (p = [])"
| "contains p (c # cs) = (prefix p (c # cs) \<or> contains p cs)"

definition startswith :: "string \<Rightarrow> string \<Rightarrow> bool" where
  "startswith s p = prefix p s"

fun join :: "string \<Rightarrow> string list \<Rightarrow> string" where
  "join sep [] = []"
| "join sep [x] = x"
| "join sep (x # y # ys) = x @ sep @ join sep (y # ys)"

definition digit_char :: "nat \<Rightarrow> char" where
  "digit_char n = char_of (48 + n)"

fun str_nat :: "nat \<Rightarrow> string" where
  "str_nat n = (if n < 10 then [digit_char n] else str_nat (n div 10) @ [digit_char (n mod 10)])"

definition str_int :: "int \<Rightarrow> string" where
  "str_int i = (if i < 0 then CHR ''-'' # str_nat (nat (- i)) else str_nat (nat i))"

section \<open>The Junk Classifier (scanner.py, detect\_junk)\<close>

definition junk_patterns :: "string list" where
  "junk_patterns = [''thumb'', ''thumbnail'', ''.ds_store'', ''desktop.ini'', ''thumbs.db'']"

text \<open>
  \<open>verify filepath\<close> says whether \<open>Image.open\<close> and \<open>img.verify()\<close> go through for the
  file. The list \<open>reasons\<close> grows by one \<open>append\<close> after another.
\<close>

definition detect_junk :: "(string \<Rightarrow> bool) \<Rightarrow> string \<Rightarrow> int \<Rightarrow> bool \<times> string" where
  "detect_junk verify filepath file_size =
     (let reasons = [];
          fname = lower (basename filepath);
          reasons = (if file_size < JUNK_SIZE_THRESHOLD
                     then reasons @ [''very small ('' @ str_int file_size @ '' bytes)'']
                     else reasons);
          reasons = (if \<exists>p \<in> set junk_patterns. contains p fname
                     then reasons @ [''thumbnail/system file pattern'']
                     else reasons);
          ext = lower (splitext_ext filepath);
          reasons = (if ext \<in> set IMAGE_EXTENSIONS
                     then (if verify filepath then reasons
                           else reasons @ [''corrupted or unreadable image''])
                     else reasons)
      in if reasons \<noteq> [] then (True, join ''; '' reasons) else (False, []))"

section \<open>The Content Fingerprinter (scanner.py, compute\_file\_hash)\<close>

text \<open>
  A file to read: its bytes, and the offset of a byte that cannot be read, if there is
  one. A \<open>read\<close> whose chunk would hold that byte raises \<open>IOError\<close>.
\<close>

record disk_file =
  content :: string
  fails_at :: "nat option"

definition read_fails :: "disk_file \<Rightarrow> nat \<Rightarrow> nat \<Rightarrow> bool" where
  "read_fails f pos len = (case fails_at f of None \<Rightarrow> False | Some k \<Rightarrow> pos \<le> k \<and> k < pos + len)"

text \<open>
  \<open>while True: chunk = f.read(n); if not chunk: break; sha.update(chunk)\<close>. The state
  of the hash object is the bytes it has been fed: \<open>hashlib\<close> documents that repeated
  calls of \<open>update\<close> are equivalent to one call with the concatenation.
\<close>

function read_loop :: "nat \<Rightarrow> disk_file \<Rightarrow> nat \<Rightarrow> string \<Rightarrow> error + string" where
  "read_loop n f pos sha =
     (let chunk = take n (drop pos (content f)) in
      if read_fails f pos (length chunk) then Inl IOError
      else if chunk = [] then Inr sha
      else read_loop n f (pos + length chunk) (sha @ chunk))"
  by pat_completeness auto
termination
  by (relation "measure (\<lambda>(n, f, pos, sha). length (content f) - pos)") auto

text \<open>
  \<open>open_file path\<close> is the file that \<open>open(filepath, "rb")\<close> gives, or nothing when it
  cannot be opened; \<open>sha256\<close> maps the bytes fed to the hash object to the hex digest.
\<close>

definition hash_file ::
  "(string \<Rightarrow> string) \<Rightarrow> nat \<Rightarrow> (string \<Rightarrow> disk_file option) \<Rightarrow> string \<Rightarrow> error + string" where
  "hash_file sha256 n open_file filepath =
     (case open_file filepath of
        None \<Rightarrow> Inl IOError
      | Some f \<Rightarrow> (case read_loop n f 0 [] of Inl e \<Rightarrow> Inl e | Inr sha \<Rightarrow> Inr (sha256 sha)))"

definition compute_file_hash ::
  "(string \<Rightarrow> string) \<Rightarrow> (string \<Rightarrow> disk_file option) \<Rightarrow> string \<Rightarrow> error + string" where
  "compute_file_hash sha256 open_file filepath = hash_file sha256 8192 open_file filepath"

section \<open>The Path Classifier (scanner.py, get\_file\_type and discover\_files)\<close>

definition get_file_type :: "string \<Rightarrow> string" where
  "get_file_type filepath =
     (let ext = lower (splitext_ext filepath) in
      if ext \<in> set IMAGE_EXTENSIONS then ''image''
      else if ext \<in> set VIDEO_EXTENSIONS then ''video''
      else ''unknown'')"

text \<open>
  A directory tree: the entries of a directory in the order \<open>os.walk\<close> lists them.
  \<open>os.walk\<close> yields a directory before its subdirectories; the loop yields the media
  files of the directory, and the walk then goes down into the subdirectories that are
  left in \<open>dirs\<close>, those whose name does not start with a dot.
\<close>

datatype entry = File string | Dir string "entry list"

definition yield_files :: "string \<Rightarrow> entry list \<Rightarrow> string list" where
  "yield_files root es =
     concat (map (\<lambda>e. case e of
                      Dir d sub \<Rightarrow> []
                    | File fname \<Rightarrow>
                        if startswith fname ''.'' then []
                        else if lower (splitext_ext fname) \<in> set (IMAGE_EXTENSIONS @ VIDEO_EXTENSIONS)
                             then [join_path root fname] else []) es)"

fun walk :: "string \<Rightarrow> entry list \<Rightarrow> string list"
  and walk_dirs :: "string \<Rightarrow> entry list \<Rightarrow> string list" where
  "walk root es = yield_files root es @ walk_dirs root es"
| "walk_dirs root [] = []"
| "walk_dirs root (File fname # es) = walk_dirs root es"
| "walk_dirs root (Dir d sub # es) =
     (if startswith d ''.'' then [] else walk (join_path root d) sub) @ walk_dirs root es"

text \<open>\<open>scan_dir\<close> is taken after \<open>os.path.expanduser\<close>; \<open>tree\<close> holds its entries.\<close>

definition discover_files :: "string \<Rightarrow> entry list \<Rightarrow> string list" where
  "discover_files scan_dir tree = walk scan_dir tree"

section \<open>The Metadata Extractor (scanner.py)\<close>

text \<open>
  What the file system and the image and video libraries answer for a path: \<open>os.stat\<close>
  (with the time stamps already in ISO format), the file as \<open>open\<close> gives it, the image
  size (nothing when the image cannot be read), the JSON text of the EXIF tags (nothing
  when there are none), the perceptual hash (nothing when it fails), the size of the
  first video stream that \<open>ffprobe\<close> reports, whether the image verifies, and the time
  of the scan.
\<close>

record file_stat =
  st_size :: int
  created :: string
  modified :: string

record scan_env =
  sha256 :: "string \<Rightarrow> string"
  open_file :: "string \<Rightarrow> disk_file option"
  stat :: "string \<Rightarrow> error + file_stat"
  image_size :: "string \<Rightarrow> (int \<times> int) option"
  exif_json :: "string \<Rightarrow> string option"
  phash :: "string \<Rightarrow> string option"
  video_size :: "string \<Rightarrow> (int \<times> int) option"
  verify_image :: "string \<Rightarrow> bool"
  now :: string

definition base_data :: "scan_env \<Rightarrow> string \<Rightarrow> string \<Rightarrow> file_stat \<Rightarrow> file_data" where
  "base_data env filepath kind st =
     [(''filepath'', PyStr filepath),
      (''filename'', PyStr (basename filepath)),
      (''original_filename'', PyStr (basename filepath)),
      (''file_type'', PyStr kind),
      (''file_size'', PyInt (st_size st)),
      (''created_date'', PyStr (created st)),
      (''modified_date'', PyStr (modified st)),
      (''scan_date'', PyStr (now env))]"

definition extract_image_metadata :: "scan_env \<Rightarrow> string \<Rightarrow> error + file_data" where
  "extract_image_metadata env filepath =
     (case stat env filepath of
        Inl e \<Rightarrow> Inl e
      | Inr st \<Rightarrow>
          (let data = base_data env filepath ''image'' st;
               data = (case image_size env filepath of
                         Some (w, h) \<Rightarrow> data @ [(''width'', PyInt w), (''height'', PyInt h)]
                       | None \<Rightarrow> data);
               data = (case exif_json env filepath of
                         Some j \<Rightarrow> data @ [(''exif_data'', PyStr j)]
                       | None \<Rightarrow> data)
           in case compute_file_hash (sha256 env) (open_file env) filepath of
                Inl e \<Rightarrow> Inl e
              | Inr h \<Rightarrow>
                  Inr (data @ [(''file_hash'', PyStr h),
                               (''perceptual_hash'',
                                case phash env filepath of Some p \<Rightarrow> PyStr p | None \<Rightarrow> PyNone)])))"

definition extract_video_metadata :: "scan_env \<Rightarrow> string \<Rightarrow> error + file_data" where
  "extract_video_metadata env filepath =
     (case stat env filepath of
        Inl e \<Rightarrow> Inl e
      | Inr st \<Rightarrow>
          (let data = base_data env filepath ''video'' st;
               data = (case video_size env filepath of
                         Some (w, h) \<Rightarrow> data @ [(''width'', PyInt w), (''height'', PyInt h)]
                       | None \<Rightarrow> data)
           in case compute_file_hash (sha256 env) (open_file env) filepath of
                Inl e \<Rightarrow> Inl e
              | Inr h \<Rightarrow> Inr (data @ [(''file_hash'', PyStr h)])))"

section \<open>The Scan Orchestrator (scanner.py, scan\_directory)\<close>

text \<open>
  A progress callback gets the position, the total and the optional label, and returns
  or raises. The counters of the scan, the state of the loop and the report.
\<close>

type_synonym callback = "nat \<Rightarrow> nat \<Rightarrow> string option \<Rightarrow> error option"

record scan_counts =
  files_found :: nat
  files_processed :: nat
  errors :: "(string \<times> error) list"

record scan_state = scan_counts +
  db :: table

record scan_stats = scan_counts +
  total_files :: nat
  images :: nat
  videos :: nat
  analyzed :: nat
  duplicates :: nat
  junk :: nat
  total_size :: int

text \<open>
  The body of the loop for the file at position \<open>i\<close>, in three parts: the call of the
  progress callback every tenth file, the part of the \<open>try\<close> block from the junk check
  on, and the whole body with the handler that records an exception. The batched
  \<open>commit\<close> does not change what the connection reads and is left out.
\<close>

definition notify ::
  "callback option \<Rightarrow> nat \<Rightarrow> nat \<Rightarrow> string \<Rightarrow> scan_state \<Rightarrow> scan_state" where
  "notify progress_callback ntotal i filepath s =
     (case progress_callback of
        None \<Rightarrow> s
      | Some cb \<Rightarrow>
          if (i + 1) mod 10 = 0
          then (case cb (i + 1) ntotal None of
                  None \<Rightarrow> s
                | Some e \<Rightarrow> s\<lparr>errors := errors s @ [(filepath, e)]\<rparr>)
          else s)"

definition store_file ::
  "scan_env \<Rightarrow> callback option \<Rightarrow> nat \<Rightarrow> nat \<Rightarrow> string \<Rightarrow> file_data \<Rightarrow> scan_state
     \<Rightarrow> scan_state" where
  "store_file env progress_callback ntotal i filepath data0 s =
     (let file_size = (case map_of data0 ''file_size'' of Some (PyInt n) \<Rightarrow> n | _ \<Rightarrow> 0);
          (is_junk, junk_reason) = detect_junk (verify_image env) filepath file_size;
          data = data0 @ [(''is_junk'', PyInt (if is_junk then 1 else 0)),
                          (''junk_reason'', if is_junk then PyStr junk_reason else PyNone)]
      in case upsert_file (db s) data of
           Inl e \<Rightarrow> s\<lparr>errors := errors s @ [(filepath, e)]\<rparr>
         | Inr (t, file_id) \<Rightarrow>
             notify progress_callback ntotal i filepath
               (s\<lparr>db := t, files_processed := files_processed s + 1\<rparr>))"

definition process_file ::
  "scan_env \<Rightarrow> callback option \<Rightarrow> nat \<Rightarrow> nat \<Rightarrow> string \<Rightarrow> scan_state \<Rightarrow> scan_state" where
  "process_file env progress_callback ntotal i filepath s0 =
     (let s = s0\<lparr>files_found := files_found s0 + 1\<rparr>;
          ftype = get_file_type filepath
      in if ftype = ''image''
         then (case extract_image_metadata env filepath of
                 Inl e \<Rightarrow> s\<lparr>errors := errors s @ [(filepath, e)]\<rparr>
               | Inr data \<Rightarrow> store_file env progress_callback ntotal i filepath data s)
         else if ftype = ''video''
         then (case extract_video_metadata env filepath of
                 Inl e \<Rightarrow> s\<lparr>errors := errors s @ [(filepath, e)]\<rparr>
               | Inr data \<Rightarrow> store_file env progress_callback ntotal i filepath data s)
         else s)"

text \<open>\<open>for i, filepath in enumerate(all_files)\<close>\<close>

fun scan_loop ::
  "scan_env \<Rightarrow> callback option \<Rightarrow> nat \<Rightarrow> nat \<Rightarrow> string list \<Rightarrow> scan_state \<Rightarrow> scan_state" where
  "scan_loop env cb ntotal i [] s = s"
| "scan_loop env cb ntotal i (filepath # rest) s =
     scan_loop env cb ntotal (Suc i) rest (process_file env cb ntotal i filepath s)"

definition count_where :: "string \<Rightarrow> val \<Rightarrow> table \<Rightarrow> nat" where
  "count_where col v t = length (filter (\<lambda>r. r col = v) t)"

definition sum_file_size :: "table \<Rightarrow> int" where
  "sum_file_size t = sum_list (map (\<lambda>r. case r ''file_size'' of Num n \<Rightarrow> n | _ \<Rightarrow> 0) t)"

text \<open>
  \<open>scan_directory\<close> on the table \<open>t0\<close> that \<open>init_db\<close> opens. The call of the callback
  for the resolver phase and \<open>find_duplicates\<close> are outside the \<open>try\<close> block: an
  exception there ends the scan.
\<close>

definition scan_directory ::
  "scan_env \<Rightarrow> callback option \<Rightarrow> string \<Rightarrow> entry list \<Rightarrow> table \<Rightarrow> error + scan_stats" where
  "scan_directory env progress_callback scan_dir tree t0 =
     (let all_files = discover_files scan_dir tree;
          ntotal = length all_files;
          s = scan_loop env progress_callback ntotal 0 all_files
                \<lparr>files_found = 0, files_processed = 0, errors = [], db = t0\<rparr>
      in case (case progress_callback of
                 None \<Rightarrow> None
               | Some cb \<Rightarrow> cb ntotal ntotal (Some ''Detecting duplicates...'')) of
           Some e \<Rightarrow> Inl e
         | None \<Rightarrow>
             (case find_duplicates (db s) of
                Inl e \<Rightarrow> Inl e
              | Inr t \<Rightarrow>
                  Inr \<lparr>files_found = files_found s, files_processed = files_processed s,
                       errors = errors s,
                       total_files = length t,
                       images = count_where ''file_type'' (Text ''image'') t,
                       videos = count_where ''file_type'' (Text ''video'') t,
                       analyzed = count_where ''ai_analyzed'' (Num 1) t,
                       duplicates = count_where ''is_duplicate'' (Num 1) t,
                       junk = count_where ''is_junk'' (Num 1) t,
                       total_size = sum_file_size t\<rparr>))"

text \<open>
  A directory of ten images, an environment in which every file can be read, and a
  callback for which the label is a required argument: the call from the loop, which
  gives no label, raises \<open>TypeError\<close>.
\<close>

definition ten_images :: "entry list" where
  "ten_images = map (\<lambda>i. File (''img'' @ str_nat i @ ''.jpg'')) [0..<10]"

definition plain_env :: scan_env where
  "plain_env =
     \<lparr>sha256 = (\<lambda>bytes. bytes),
      open_file = (\<lambda>p. Some \<lparr>content = p, fails_at = None\<rparr>),
      stat = (\<lambda>p. Inr \<lparr>st_size = 50000, created = ''2026-01-01T00:00:00'',
                          modified = ''2026-01-01T00:00:00''\<rparr>),
      image_size = (\<lambda>p. Some (100, 100)),
      exif_json = (\<lambda>p. None),
      phash = (\<lambda>p. None),
      video_size = (\<lambda>p. None),
      verify_image = (\<lambda>p. True),
      now = ''2026-01-02T00:00:00''\<rparr>"

definition needs_label :: callback where
  "needs_label current ntotal msg = (if msg = None then Some TypeError else None)"

text \<open>The files found, the files processed and the number of errors of a report.\<close>

definition counts_of :: "scan_stats \<Rightarrow> nat \<times> nat \<times> nat" where
  "counts_of st = (files_found st, files_processed st, length (errors st))"

text \<open>A callback that does not raise when called from the loop, or no callback.\<close>

definition quiet :: "callback option \<Rightarrow> bool" where
  "quiet cb = (case cb of None \<Rightarrow> True | Some f \<Rightarrow> \<forall>i n. f i n None = None)"

text \<open>Paths that \<open>get_file_type\<close> takes for an image or a video.\<close>

definition is_media :: "string \<Rightarrow> bool" where
  "is_media p = (get_file_type p = ''image'' \<or> get_file_type p = ''video'')"

text \<open>
  An environment with a readable file, a file whose fifth byte cannot be read, and no
  other file.
\<close>

definition abc_env :: scan_env where
  "abc_env = plain_env\<lparr>open_file := (\<lambda>p. if p = ''/pics/a.jpg''
       then Some \<lparr>content = ''abcdefghij'', fails_at = None\<rparr>
       else if p = ''/pics/b.jpg'' then Some \<lparr>content = ''abcdefghij'', fails_at = Some 4\<rparr>
       else None)\<rparr>"

section \<open>Properties of the Duplicate Resolver\<close>

subsection \<open>The loops as maps over the rows\<close>

lemma set_dup_id [simp]: "set_dup orig r ''id'' = r ''id''"
  by (simp add: set_dup_def)

lemma set_dup_idem [simp]: "set_dup orig (set_dup orig' r) = set_dup orig r"
  by (simp add: set_dup_def)

lemma mark_group_map:
  "mark_group orig ds t = map (\<lambda>r. if r ''id'' \<in> set ds then set_dup orig r else r) t"
proof (induction ds arbitrary: t)
  case Nil
  then show ?case by simp
next
  case (Cons d ds)
  show ?case
    by (simp add: Cons.IH update_exact_def) 
qed

lemma find_snoc:
  "find P (xs @ [x]) = (case find P xs of Some y \<Rightarrow> Some y | None \<Rightarrow> if P x then Some x else None)"
  by (induction xs) auto

lemma row_exact_Nil [simp]: "row_exact [] r = r"
  by (simp add: row_exact_def)

lemma row_exact_id [simp]: "row_exact gs r ''id'' = r ''id''"
  by (simp add: row_exact_def split: option.splits)

lemma row_exact_Cons:
  "row_exact (g # gs) r =
     row_exact gs (if r ''id'' \<in> set (tl g) then set_dup (hd g) r else r)"
  by (simp add: row_exact_def find_snoc split: option.splits)

lemma exact_loop_map: "exact_loop gs t = map (row_exact gs) t"
proof (induction gs t rule: exact_loop.induct)
  case (1 t)
  then show ?case by simp
next
  case (2 rest t)
  then show ?case by (simp add: row_exact_Cons)
next
  case (3 original_id ds rest t)
  then show ?case by (simp add: row_exact_Cons mark_group_map)
qed

lemma group_of_row:
  assumes wf: "wf_table t" and r: "r \<in> set t"
    and g: "g \<in> set (exact_groups t)" and mem: "r ''id'' \<in> set g"
  shows "g = map (\<lambda>x. x ''id'') (same_digest t r) \<and> r ''file_hash'' \<noteq> Null
         \<and> length (same_digest t r) > 1"
proof -
  from g obtain h where gh: "g = map (\<lambda>x. x ''id'') (filter (\<lambda>x. x ''file_hash'' = h) t)"
    and h: "h \<noteq> Null" and l: "length g > 1"
    by (auto simp: exact_groups_def)
  with mem obtain x where x: "x \<in> set t" "x ''file_hash'' = h" "x ''id'' = r ''id''"
    by auto
  from wf have "inj_on (\<lambda>x. x ''id'') (set t)"
    by (simp add: wf_table_def ids_of_def distinct_map)
  with x r have "x = r" by (auto dest: inj_onD)
  with x gh h l show ?thesis by (auto simp: same_digest_def)
qed

lemma group_distinct:
  assumes wf: "wf_table t" and g: "g \<in> set (exact_groups t)"
  shows "distinct g"
proof -
  from g obtain h where gh: "g = map (\<lambda>x. x ''id'') (filter (\<lambda>x. x ''file_hash'' = h) t)"
    by (auto simp: exact_groups_def)
  from wf show ?thesis unfolding gh wf_table_def ids_of_def
    by (simp add: distinct_map_filter)
qed

lemma group_member:
  assumes r: "r \<in> set t" and h: "r ''file_hash'' \<noteq> Null" and l: "length (same_digest t r) > 1"
  shows "map (\<lambda>x. x ''id'') (same_digest t r) \<in> set (exact_groups t)"
  using assms by (auto simp: exact_groups_def same_digest_def)

lemma find_SomeD: "find P xs = Some x \<Longrightarrow> x \<in> set xs \<and> P x"
  by (induction xs) (auto split: if_splits)

lemma in_tl_iff: "distinct g \<Longrightarrow> x \<in> set g \<Longrightarrow> x \<in> set (tl g) \<longleftrightarrow> x \<noteq> hd g"
  by (cases g) auto

lemma row_exact_groups:
  assumes wf: "wf_table t" and r: "r \<in> set t"
  shows "row_exact (exact_groups t) r =
           (if r ''file_hash'' \<noteq> Null \<and> length (same_digest t r) > 1
               \<and> r ''id'' \<noteq> hd (same_digest t r) ''id''
            then set_dup (hd (same_digest t r) ''id'') r else r)"
proof -
  let ?g = "same_digest t r"
  let ?G = "map (\<lambda>x. x ''id'') ?g"
  have rg: "r \<in> set ?g" using r by (simp add: same_digest_def)
  then have ne: "?g \<noteq> []" by auto
  have hdG: "hd ?G = hd ?g ''id''" using ne by (simp add: hd_map)
  have memG: "r ''id'' \<in> set ?G" using rg by force
  show ?thesis
  proof (cases "find (\<lambda>g. r ''id'' \<in> set (tl g)) (rev (exact_groups t))")
    case None
    have "\<not> (r ''file_hash'' \<noteq> Null \<and> length ?g > 1 \<and> r ''id'' \<noteq> hd ?g ''id'')"
    proof
      assume c: "r ''file_hash'' \<noteq> Null \<and> length ?g > 1 \<and> r ''id'' \<noteq> hd ?g ''id''"
      then have G: "?G \<in> set (exact_groups t)" using r by (simp add: group_member)
      then have "distinct ?G" using wf by (rule group_distinct[rotated])
      then have "r ''id'' \<in> set (tl ?G)" using memG c hdG by (simp add: in_tl_iff)
      with G None show False by (auto simp: find_None_iff)
    qed
    with None show ?thesis by (auto simp: row_exact_def)
  next
    case (Some g')
    then have g': "g' \<in> set (exact_groups t)" and tl: "r ''id'' \<in> set (tl g')"
      by (auto dest: find_SomeD)
    from tl have mem: "r ''id'' \<in> set g'" by (cases g') auto
    from group_of_row[OF wf r g' mem] have eq: "g' = ?G" and h: "r ''file_hash'' \<noteq> Null"
      and l: "length ?g > 1" by auto
    have "distinct g'" using wf g' by (rule group_distinct)
    then have "r ''id'' \<noteq> hd g'" using mem tl by (simp add: in_tl_iff)
    with Some eq hdG h l show ?thesis by (simp add: row_exact_def)
  qed
qed

lemma exact_phase_map:
  assumes wf: "wf_table t"
  shows "exact_phase t = map (exact_row t) t"
  unfolding exact_phase_def exact_loop_map exact_row_def
  by (rule map_cong) (simp_all add: row_exact_groups[OF wf])

lemma update_near_map: "update_near a b t = map (near_row a b) t"
  by (simp add: update_near_def near_row_def)

lemma near_inner_map: "near_inner a ha rest t = map (row_near_inner a ha rest) t"
proof (induction rest arbitrary: t)
  case Nil
  have "row_near_inner a ha [] = (\<lambda>r. r)" by (rule ext) simp
  then show ?case by simp
next
  case (Cons x rest)
  obtain b hb where x: "x = (b, hb)" by (cases x)
  have "row_near_inner a ha ((b, hb) # rest) =
          row_near_inner a ha rest \<circ> (\<lambda>r. if hash_distance ha hb \<le> 8 then near_row a b r else r)"
    by (rule ext) simp
  then show ?case
    by (simp add: x Cons.IH update_near_map)
qed

lemma near_outer_map: "near_outer pl t = map (row_near_outer pl) t"
proof (induction pl arbitrary: t)
  case Nil
  have "row_near_outer [] = (\<lambda>r. r)" by (rule ext) simp
  then show ?case by simp
next
  case (Cons x pl)
  obtain a ha where x: "x = (a, ha)" by (cases x)
  have "row_near_outer ((a, ha) # pl) = row_near_outer pl \<circ> row_near_inner a ha pl"
    by (rule ext) simp
  then show ?case
    by (simp add: x Cons.IH near_inner_map)
qed

lemma set_dup_other:
  "k \<noteq> ''is_duplicate'' \<Longrightarrow> k \<noteq> ''duplicate_of'' \<Longrightarrow> set_dup orig r k = r k"
  by (simp add: set_dup_def)

lemma set_dup_flag [simp]: "set_dup orig r ''is_duplicate'' = Num 1"
  by (simp add: set_dup_def)

lemma near_row_other:
  "k \<noteq> ''is_duplicate'' \<Longrightarrow> k \<noteq> ''duplicate_of'' \<Longrightarrow> near_row a b r k = r k"
  by (simp add: near_row_def set_dup_other)

lemma near_row_flag:
  "near_row a b r ''is_duplicate'' = Num 0 \<longleftrightarrow> r ''is_duplicate'' = Num 0 \<and> r ''id'' \<noteq> b"
  by (auto simp: near_row_def)

lemma near_row_marked: "r ''is_duplicate'' \<noteq> Num 0 \<Longrightarrow> near_row a b r = r"
  by (simp add: near_row_def)

lemma row_near_inner_other:
  "k \<noteq> ''is_duplicate'' \<Longrightarrow> k \<noteq> ''duplicate_of'' \<Longrightarrow> row_near_inner a ha rest r k = r k"
  by (induction rest arbitrary: r) (auto simp: near_row_other)

lemma row_near_outer_other:
  "k \<noteq> ''is_duplicate'' \<Longrightarrow> k \<noteq> ''duplicate_of'' \<Longrightarrow> row_near_outer pl r k = r k"
  by (induction pl arbitrary: r) (auto simp: row_near_inner_other)

lemma row_near_inner_flag:
  "row_near_inner a ha rest r ''is_duplicate'' = Num 0 \<longleftrightarrow>
     r ''is_duplicate'' = Num 0 \<and> \<not> inner_hit ha rest (r ''id'')"
proof (induction rest arbitrary: r)
  case Nil
  then show ?case by (simp add: inner_hit_def)
next
  case (Cons x rest)
  obtain b hb where x: "x = (b, hb)" by (cases x)
  show ?case
    by (auto simp: x Cons.IH near_row_flag near_row_other inner_hit_def)
qed

lemma row_near_outer_flag:
  "row_near_outer pl r ''is_duplicate'' = Num 0 \<longleftrightarrow>
     r ''is_duplicate'' = Num 0 \<and> \<not> outer_hit pl (r ''id'')"
proof (induction pl arbitrary: r)
  case Nil
  then show ?case by simp
next
  case (Cons x pl)
  obtain a ha where x: "x = (a, ha)" by (cases x)
  show ?case
    by (auto simp: x Cons.IH row_near_inner_flag row_near_inner_other)
qed

lemma row_near_inner_marked:
  "r ''is_duplicate'' \<noteq> Num 0 \<Longrightarrow> row_near_inner a ha rest r = r"
  by (induction rest arbitrary: r) (auto simp: near_row_marked)

lemma row_near_outer_marked:
  "r ''is_duplicate'' \<noteq> Num 0 \<Longrightarrow> row_near_outer pl r = r"
  by (induction pl arbitrary: r) (auto simp: row_near_inner_marked)

lemma row_near_inner_miss:
  "\<not> inner_hit ha rest (r ''id'') \<Longrightarrow> row_near_inner a ha rest r = r"
proof (induction rest arbitrary: r)
  case Nil
  then show ?case by simp
next
  case (Cons x rest)
  obtain b hb where x: "x = (b, hb)" by (cases x)
  from Cons.prems have 1: "\<not> (b = r ''id'' \<and> hash_distance ha hb \<le> 8)"
    and 2: "\<not> inner_hit ha rest (r ''id'')"
    by (auto simp: x inner_hit_def)
  from 1 have "(if hash_distance ha hb \<le> 8 then near_row a b r else r) = r"
    by (auto simp: near_row_def)
  with Cons.IH[of r] 2 show ?case by (simp add: x)
qed

lemma row_near_outer_miss:
  "\<not> outer_hit pl (r ''id'') \<Longrightarrow> row_near_outer pl r = r"
proof (induction pl arbitrary: r)
  case Nil
  then show ?case by simp
next
  case (Cons x pl)
  obtain a ha where x: "x = (a, ha)" by (cases x)
  from Cons.prems show ?case
    by (simp add: x row_near_inner_miss Cons.IH)
qed

lemma inner_hit_filter: "inner_hit ha (filter P rest) b \<Longrightarrow> inner_hit ha rest b"
  by (auto simp: inner_hit_def)

lemma outer_hit_filter: "outer_hit (filter P pl) b \<Longrightarrow> outer_hit pl b"
proof (induction pl)
  case Nil
  then show ?case by simp
next
  case (Cons x pl)
  obtain a ha where x: "x = (a, ha)" by (cases x)
  from Cons show ?case
    by (auto simp: x dest: inner_hit_filter split: if_splits)
qed

lemma outer_hit_mem: "outer_hit pl b \<Longrightarrow> b \<in> fst ` set pl"
proof (induction pl)
  case Nil
  then show ?case by simp
next
  case (Cons x pl)
  obtain a ha where x: "x = (a, ha)" by (cases x)
  from Cons show ?case
    by (force simp: x inner_hit_def)
qed

lemma no_hit_after_filter:
  "\<not> outer_hit (filter (\<lambda>(b, h). \<not> outer_hit pl b) pl) c"
proof
  let ?pl' = "filter (\<lambda>(b, h). \<not> outer_hit pl b) pl"
  assume h: "outer_hit ?pl' c"
  then have "outer_hit pl c" by (rule outer_hit_filter)
  moreover from h have "c \<in> fst ` set ?pl'" by (rule outer_hit_mem)
  then have "\<not> outer_hit pl c" by auto
  ultimately show False by simp
qed

lemma phash_list_filter:
  "phash_list xs = Inr pl \<Longrightarrow>
   phash_list (filter (\<lambda>(b, p). P b) xs) = Inr (filter (\<lambda>(b, h). P b) pl)"
proof (induction xs arbitrary: pl)
  case Nil
  then show ?case by simp
next
  case (Cons x xs)
  obtain b p where x: "x = (b, p)" by (cases x)
  from Cons.prems obtain h hs where h: "hex_to_hash p = Inr h" and hs: "phash_list xs = Inr hs"
    and pl: "pl = (b, h) # hs"
    by (auto simp: x split: sum.splits)
  from Cons.IH[OF hs] show ?case by (simp add: x h pl)
qed

lemma phash_rows_after:
  "phash_rows (map (row_near_outer pl) t) =
     filter (\<lambda>(b, p). \<not> outer_hit pl b) (phash_rows t)"
proof (induction t)
  case Nil
  then show ?case by (simp add: phash_rows_def)
next
  case (Cons r t)
  let ?F = "row_near_outer pl"
  have id: "?F r ''id'' = r ''id''" by (simp add: row_near_outer_other)
  have ph: "?F r ''perceptual_hash'' = r ''perceptual_hash''" by (simp add: row_near_outer_other)
  have ft: "?F r ''file_type'' = r ''file_type''" by (simp add: row_near_outer_other)
  from Cons show ?case
    by (simp add: phash_rows_def id ph ft row_near_outer_flag)
qed

lemma near_phase_idem:
  assumes "phash_list (phash_rows t) = Inr pl"
  shows "\<exists>pl'. phash_list (phash_rows (near_outer pl t)) = Inr pl'
           \<and> near_outer pl' (near_outer pl t) = near_outer pl t"
proof -
  let ?pl' = "filter (\<lambda>(b, h). \<not> outer_hit pl b) pl"
  have 1: "phash_list (phash_rows (near_outer pl t)) = Inr ?pl'"
    by (simp add: near_outer_map phash_rows_after phash_list_filter[OF assms])
  have "near_outer ?pl' (near_outer pl t) = map (row_near_outer ?pl') (near_outer pl t)"
    by (simp add: near_outer_map)
  also have "\<dots> = map (\<lambda>r. r) (near_outer pl t)"
    by (rule map_cong) (simp_all add: row_near_outer_miss no_hit_after_filter)
  finally have 2: "near_outer ?pl' (near_outer pl t) = near_outer pl t" by simp
  from 1 2 show ?thesis by blast
qed

lemma exact_row_other:
  "k \<noteq> ''is_duplicate'' \<Longrightarrow> k \<noteq> ''duplicate_of'' \<Longrightarrow> exact_row t r k = r k"
  by (simp add: exact_row_def set_dup_other)

lemma exact_row_marked:
  "r ''is_duplicate'' \<noteq> Num 0 \<Longrightarrow> exact_row t r ''is_duplicate'' \<noteq> Num 0"
  by (simp add: exact_row_def)

lemma find_duplicates_rows:
  assumes wf: "wf_table t" and run: "find_duplicates t = Inr t'"
  shows "\<exists>pl. phash_list (phash_rows (exact_phase t)) = Inr pl
           \<and> t' = map (\<lambda>r. row_near_outer pl (exact_row t r)) t"
proof -
  from run obtain pl where pl: "phash_list (phash_rows (exact_phase t)) = Inr pl"
    and t': "t' = near_outer pl (exact_phase t)"
    by (auto simp: find_duplicates_def Let_def split: sum.splits)
  from t' have "t' = map (\<lambda>r. row_near_outer pl (exact_row t r)) t"
    by (simp add: near_outer_map exact_phase_map[OF wf])
  with pl show ?thesis by blast
qed

lemma exact_phase_settled:
  assumes wf: "wf_table t"
  shows "exact_phase (map (\<lambda>r. row_near_outer pl (exact_row t r)) t)
           = map (\<lambda>r. row_near_outer pl (exact_row t r)) t"
proof -
  let ?G = "\<lambda>r. row_near_outer pl (exact_row t r)"
  let ?t' = "map ?G t"
  have Gid: "?G r ''id'' = r ''id''" for r
    by (simp add: row_near_outer_other exact_row_other)
  have Gh: "?G r ''file_hash'' = r ''file_hash''" for r
    by (simp add: row_near_outer_other exact_row_other)
  have wf': "wf_table ?t'"
    using wf by (simp add: wf_table_def ids_of_def Gid comp_def)
  have sd: "same_digest ?t' (?G r) = map ?G (same_digest t r)" for r
    by (simp add: same_digest_def filter_map comp_def Gh)
  have settled: "exact_row ?t' (?G r) = ?G r" if r: "r \<in> set t" for r
  proof -
    have ne: "same_digest t r \<noteq> []" using r by (auto simp: same_digest_def filter_empty_conv)
    have hd: "hd (same_digest ?t' (?G r)) ''id'' = hd (same_digest t r) ''id''"
      using ne by (simp add: sd hd_map Gid)
    show ?thesis
    proof (cases "r ''file_hash'' \<noteq> Null \<and> length (same_digest t r) > 1
         \<and> r ''id'' \<noteq> hd (same_digest t r) ''id''")
      case True
      then have E: "exact_row t r = set_dup (hd (same_digest t r) ''id'') r"
        by (simp add: exact_row_def)
      have G: "?G r = set_dup (hd (same_digest t r) ''id'') r"
        by (simp add: E row_near_outer_marked)
      have "exact_row ?t' (?G r) = set_dup (hd (same_digest t r) ''id'') (?G r)"
        using True unfolding exact_row_def[of ?t' "?G r"] hd Gh Gid by (simp add: sd)
      then show ?thesis by (simp add: G)
    next
      case False
      then show ?thesis
        unfolding exact_row_def[of ?t' "?G r"] hd Gh Gid by (auto simp: sd)
    qed
  qed
  have "exact_phase ?t' = map (exact_row ?t') ?t'"
    using wf' by (rule exact_phase_map)
  also have "\<dots> = map (\<lambda>r. exact_row ?t' (?G r)) t" by (simp add: comp_def)
  also have "\<dots> = ?t'" by (rule map_cong) (simp_all add: settled)
  finally show ?thesis .
qed

subsection \<open>The claims about the resolver\<close>

text \<open>
  C1. The claim: after any run of \<open>find_duplicates\<close>, the record a duplicate refers to is
  itself no duplicate. The run on \<open>chain_table\<close>, three unmarked images, ends with the
  third image linked to the second and the second marked as a duplicate of the first:
  the near phase checks that the second record of a pair is unmarked, but not the first.
\<close>

theorem find_duplicates_chain:
  "map_sum id links (find_duplicates chain_table) =
     Inr [(Num 1, Num 0, Null), (Num 2, Num 1, Num 1), (Num 3, Num 1, Num 2)]"
  by code_simp



text \<open>
  C3. The claim: a record marked by an earlier run, whose digest has changed since and
  matches no other record, loses its mark and its link in the next run. In \<open>rescan_run\<close>
  the second file keeps both after its digest has changed from \<open>h\<close> to \<open>k\<close>.
\<close>

theorem rescan_keeps_stale_link:
  "map_sum id digest_links rescan_run =
     Inr [(Num 1, Text ''h'', Num 0, Null), (Num 2, Text ''k'', Num 1, Num 1)]"
  by code_simp

text \<open>
  C3, as the code has it: no statement of the resolver clears a mark. A row that is
  marked before a run is marked after it; the exact phase gives it a new link when it is
  a later member of a digest group, and otherwise the run leaves the row as it was.
\<close>

theorem stale_mark_kept:
  assumes wf: "wf_table t" and run: "find_duplicates t = Inr t'"
    and i: "i < length t" and marked: "(t ! i) ''is_duplicate'' \<noteq> Num 0"
  shows "length t' = length t \<and> (t' ! i) ''is_duplicate'' \<noteq> Num 0 \<and>
         t' ! i = (if (t ! i) ''file_hash'' \<noteq> Null \<and> length (same_digest t (t ! i)) > 1
                      \<and> (t ! i) ''id'' \<noteq> hd (same_digest t (t ! i)) ''id''
                   then set_dup (hd (same_digest t (t ! i)) ''id'') (t ! i) else t ! i)"
proof -
  from find_duplicates_rows[OF wf run] obtain pl
    where t': "t' = map (\<lambda>r. row_near_outer pl (exact_row t r)) t"
    by blast
  have m: "exact_row t (t ! i) ''is_duplicate'' \<noteq> Num 0"
    using marked by (rule exact_row_marked)
  have "t' ! i = exact_row t (t ! i)"
    using i m by (simp add: t' row_near_outer_marked)
  with m show ?thesis by (simp add: t' exact_row_def)
qed

theorem stale_mark_kept_witness:
  "wf_table stale_table \<and> 1 < length stale_table
   \<and> (stale_table ! 1) ''is_duplicate'' \<noteq> Num 0
   \<and> (\<exists>t'. find_duplicates stale_table = Inr t' \<and> t' ! 1 = stale_table ! 1)"
proof -
  have wf: "wf_table stale_table"
    by (simp add: wf_table_def ids_of_def stale_table_def image_row_def)
  have i: "1 < length stale_table" by (simp add: stale_table_def)
  have m: "(stale_table ! 1) ''is_duplicate'' \<noteq> Num 0" by (simp add: stale_table_def)
  have "\<not> isl (find_duplicates stale_table)" by code_simp
  then obtain t' where run: "find_duplicates stale_table = Inr t'"
    by (cases "find_duplicates stale_table") auto
  have "t' ! 1 = stale_table ! 1"
    using stale_mark_kept[OF wf run i m]
    by (simp add: stale_table_def image_row_def same_digest_def)
  with wf i m run show ?thesis by blast
qed

text \<open>
  C6. A second run over the table that a first run has produced changes nothing: the
  flags and the links are those of the first run.
\<close>

theorem find_duplicates_idempotent:
  assumes wf: "wf_table t" and run: "find_duplicates t = Inr t'"
  shows "find_duplicates t' = Inr t'"
proof -
  from find_duplicates_rows[OF wf run] obtain pl
    where pl: "phash_list (phash_rows (exact_phase t)) = Inr pl"
      and t': "t' = map (\<lambda>r. row_near_outer pl (exact_row t r)) t"
    by blast
  have near: "t' = near_outer pl (exact_phase t)"
    by (simp add: t' near_outer_map exact_phase_map[OF wf])
  have ex: "exact_phase t' = t'"
    unfolding t' by (rule exact_phase_settled[OF wf])
  from near_phase_idem[OF pl] near obtain pl'
    where "phash_list (phash_rows t') = Inr pl'" and "near_outer pl' t' = t'"
    by auto
  then show ?thesis
    by (simp add: find_duplicates_def ex)
qed

theorem find_duplicates_idempotent_witness:
  "wf_table chain_table
   \<and> (\<exists>t'. find_duplicates chain_table = Inr t' \<and> find_duplicates t' = Inr t')"
proof -
  have wf: "wf_table chain_table"
    by (simp add: wf_table_def ids_of_def chain_table_def image_row_def)
  have "\<not> isl (find_duplicates chain_table)" by code_simp
  then obtain t' where run: "find_duplicates chain_table = Inr t'"
    by (cases "find_duplicates chain_table") auto
  from find_duplicates_idempotent[OF wf run] wf run show ?thesis by blast
qed

section \<open>Properties of upsert\_file\<close>

lemma assign_Nil [simp]: "assign [] r = r"
  by (simp add: assign_def)

lemma assign_Cons [simp]: "assign (kv # kvs) r = assign kvs (assign1 kv r)"
  by (simp add: assign_def)

lemma assign_other: "k \<notin> fst ` set kvs \<Longrightarrow> assign kvs r k = r k"
  by (induction kvs arbitrary: r) (auto simp: assign1_def)

lemma assign_key:
  "distinct (map fst kvs) \<Longrightarrow> map_of kvs k = Some v \<Longrightarrow> assign kvs r k = bind_val v"
proof (induction kvs arbitrary: r)
  case Nil
  then show ?case by simp
next
  case (Cons x kvs)
  obtain k' v' where x: "x = (k', v')" by (cases x)
  show ?case
  proof (cases "k' = k")
    case True
    with Cons.prems x have nk: "k \<notin> fst ` set kvs" and v: "v' = v" by auto
    have "assign (x # kvs) r k = assign1 x r k"
      using nk by (simp add: assign_other)
    then show ?thesis by (simp add: x True v assign1_def)
  next
    case False
    with Cons.prems have "distinct (map fst kvs)" "map_of kvs k = Some v" by (auto simp: x)
    from Cons.IH[OF this] show ?thesis by simp
  qed
qed

lemma find_NoneD: "find P xs = None \<Longrightarrow> x \<in> set xs \<Longrightarrow> \<not> P x"
  by (induction xs) (auto split: if_splits)

lemma upsert_file_cases:
  assumes ok: "upsert_file t file_data = Inr (t', i)"
  obtains (update) p existing where "map_of file_data ''filepath'' = Some p"
      "find (\<lambda>r. bind_val p \<noteq> Null \<and> r ''filepath'' = bind_val p) t = Some existing"
      "t' = sort_key row_id (map (\<lambda>r. if r ''filepath'' = bind_val p
              then assign (filter (\<lambda>(k, v). k \<noteq> ''filepath'') file_data) r else r) t)"
      "constraints_ok t'" "i = existing ''id''"
  | (insert) p new where "map_of file_data ''filepath'' = Some p"
      "find (\<lambda>r. bind_val p \<noteq> Null \<and> r ''filepath'' = bind_val p) t = None"
      "t' = sort_key row_id (t @ [new])"
      "new ''filepath'' = assign file_data default_row ''filepath''"
      "constraints_ok t'" "i = new ''id''"
proof (cases "map_of file_data ''filepath''")
  case None
  with ok show ?thesis by (simp add: upsert_file_def)
next
  case (Some p)
  show ?thesis
  proof (cases "find (\<lambda>r. bind_val p \<noteq> Null \<and> r ''filepath'' = bind_val p) t")
    case None
    let ?new0 = "assign file_data default_row"
    define new where "new = (if ?new0 ''id'' = Null then ?new0(''id'' := Num (next_id t)) else ?new0)"
    from ok Some None have 1: "t' = sort_key row_id (t @ [new])"
      and 2: "constraints_ok t'" and 3: "i = new ''id''"
      by (auto simp: upsert_file_def Let_def new_def split: pyval.splits if_splits)
    have 4: "new ''filepath'' = ?new0 ''filepath''" by (simp add: new_def)
    show ?thesis by (rule insert[OF Some None 1 4 2 3])
  next
    case (Some existing)
    from ok \<open>map_of file_data ''filepath'' = Some p\<close> Some
    have 1: "t' = sort_key row_id (map (\<lambda>r. if r ''filepath'' = bind_val p
              then assign (filter (\<lambda>(k, v). k \<noteq> ''filepath'') file_data) r else r) t)"
      and 2: "constraints_ok t'" and 3: "i = existing ''id''"
      by (auto simp: upsert_file_def Let_def split: pyval.splits if_splits)
    show ?thesis by (rule update[OF \<open>map_of file_data ''filepath'' = Some p\<close> Some 1 2 3])
  qed
qed

lemma filter_key_le1:
  "distinct (map f xs) \<Longrightarrow> length (filter (\<lambda>x. f x = v) xs) \<le> 1"
proof (induction xs)
  case Nil
  then show ?case by simp
next
  case (Cons a xs)
  then have d: "distinct (map f xs)" and a: "f a \<notin> f ` set xs" by auto
  show ?case
  proof (cases "f a = v")
    case True
    from a have "\<forall>x \<in> set xs. f x \<noteq> f a" by (metis imageI)
    with True have "filter (\<lambda>x. f x = v) xs = []" by (simp add: filter_empty_conv)
    with True show ?thesis by simp
  next
    case False
    with Cons.IH[OF d] show ?thesis by simp
  qed
qed

lemma assign_sets_filepath:
  "assign (filter (\<lambda>(k, v). k \<noteq> ''filepath'') file_data) r ''filepath'' = r ''filepath''"
  by (rule assign_other) auto

text \<open>
  C10. A successful \<open>upsert_file\<close> on a dict with distinct keys. When a row with the
  given path exists, no row is added, exactly one row has that path, and the new table
  holds the old rows with only that row rewritten by a function that leaves every
  column not named in \<open>file_data\<close>, and the path itself, as it was. When no row has
  the path, the new table holds the old rows and one new row with the path.
\<close>

theorem upsert_file_frame:
  assumes ok: "upsert_file t file_data = Inr (t', i)"
    and keys: "distinct (map fst file_data)"
  shows "\<exists>p. map_of file_data ''filepath'' = Some p \<and>
     (if \<exists>r \<in> set t. r ''filepath'' = bind_val p
      then length t' = length t \<and>
           length (filter (\<lambda>r. r ''filepath'' = bind_val p) t) = 1 \<and>
           (\<exists>g. (\<forall>r k. k \<notin> fst ` set file_data \<or> k = ''filepath'' \<longrightarrow> g r k = r k) \<and>
                mset t' = mset (map (\<lambda>r. if r ''filepath'' = bind_val p then g r else r) t))
      else (\<exists>new. new ''filepath'' = bind_val p \<and> mset t' = mset t + {#new#}))"
  using ok
proof (cases rule: upsert_file_cases)
  case (update p existing)
  let ?sets = "filter (\<lambda>(k, v). k \<noteq> ''filepath'') file_data"
  have ex: "\<exists>r \<in> set t. r ''filepath'' = bind_val p"
    using update(2) by (auto dest: find_SomeD)
  have g: "\<forall>r k. k \<notin> fst ` set file_data \<or> k = ''filepath'' \<longrightarrow> assign ?sets r k = r k"
    by (auto intro!: assign_other)
  have "mset t' = mset (map (\<lambda>r. if r ''filepath'' = bind_val p then assign ?sets r else r) t)"
    by (simp add: update(3))
  moreover have "length t' = length t" by (simp add: update(3))
  moreover have "length (filter (\<lambda>r. r ''filepath'' = bind_val p) t) = 1"
  proof -
    have A: "map (\<lambda>r. r ''filepath'')
            (map (\<lambda>r. if r ''filepath'' = bind_val p then assign ?sets r else r) t)
          = map (\<lambda>r. r ''filepath'') t"
      by (simp add: assign_sets_filepath)
    have B: "mset (map (\<lambda>r. r ''filepath'') t')
          = mset (map (\<lambda>r. r ''filepath'')
              (map (\<lambda>r. if r ''filepath'' = bind_val p then assign ?sets r else r) t))"
      unfolding update(3) by (simp only: mset_map mset_sort)
    have C: "mset (map (\<lambda>r. r ''filepath'') t') = mset (map (\<lambda>r. r ''filepath'') t)"
      by (simp only: B A)
    have D: "distinct (map (\<lambda>r. r ''filepath'') t')"
      using update(4) by (simp add: constraints_ok_def)
    have "distinct (map (\<lambda>r. r ''filepath'') t)"
      using mset_eq_imp_distinct_iff[OF C] D by blast
    then have "length (filter (\<lambda>r. r ''filepath'' = bind_val p) t) \<le> 1"
      by (rule filter_key_le1)
    moreover from ex have "filter (\<lambda>r. r ''filepath'' = bind_val p) t \<noteq> []"
      by (auto simp: filter_empty_conv)
    then have "length (filter (\<lambda>r. r ''filepath'' = bind_val p) t) \<noteq> 0" by simp
    ultimately show ?thesis by linarith
  qed
  ultimately show ?thesis using update(1) ex g by auto
next
  case (insert p new)
  from insert(3) have mem: "new \<in> set t'" by simp
  from insert(5) mem have nn: "new ''filepath'' \<noteq> Null"
    by (auto simp: constraints_ok_def)
  have fp: "new ''filepath'' = bind_val p"
    using insert(4) assign_key[OF keys insert(1)] by simp
  have no: "\<not> (\<exists>r \<in> set t. r ''filepath'' = bind_val p)"
    using insert(2) nn fp by (auto dest: find_NoneD)
  have "mset t' = mset t + {#new#}" by (simp add: insert(3))
  with insert(1) fp no show ?thesis by auto
qed

theorem upsert_file_frame_witness:
  "distinct (map fst ai_data) \<and>
   (\<exists>t' i. upsert_file abcd_table ai_data = Inr (t', i) \<and> length t' = length abcd_table
      \<and> length (filter (\<lambda>r. r ''filepath'' = Text ''/B.jpg'') abcd_table) = 1)"
proof -
  have keys: "distinct (map fst ai_data)" by (simp add: ai_data_def)
  have "\<not> isl (upsert_file abcd_table ai_data)" by code_simp
  then obtain t' i where run: "upsert_file abcd_table ai_data = Inr (t', i)"
    by (cases "upsert_file abcd_table ai_data") auto
  have p: "map_of ai_data ''filepath'' = Some (PyStr ''/B.jpg'')" by (simp add: ai_data_def)
  have ex: "\<exists>r \<in> set abcd_table. r ''filepath'' = Text ''/B.jpg''"
    by (simp add: abcd_table_def image_row_def)
  from upsert_file_frame[OF run keys] p ex
  have "length t' = length abcd_table
      \<and> length (filter (\<lambda>r. r ''filepath'' = Text ''/B.jpg'') abcd_table) = 1"
    by (auto simp: bind_val_def)
  with keys run show ?thesis by blast
qed

section \<open>Properties of frame sampling\<close>

lemma cleanup_disk:
  "disk (cleanup s) = disk s - {p \<in> set (created_temps s). p \<notin> set (frames s)}"
proof -
  have "fold (\<lambda>p d. if p \<notin> F then d - {p} else d) ps d = d - {p \<in> set ps. p \<notin> F}" for F ps and d :: "string set"
    by (induction ps arbitrary: d) auto
  then show ?thesis by (simp add: cleanup_def)
qed

lemma frame_loop_disk:
  assumes "fresh_names env disk0" and "distinct rest" and "at_head env disk0 rest s"
    and "frame_loop env rest s = (exc, s')"
  shows "disk (cleanup s') = disk0 \<union> set (frames s')
         \<and> (exc = None \<longrightarrow> disk s' = disk0 \<union> set (frames s'))"
  using assms(2-)
proof (induction rest arbitrary: s)
  case Nil
  then show ?case by (auto simp: at_head_def cleanup_disk)
next
  case (Cons i rest)
  show ?case
  proof (cases "mktemp env i")
    case (Inl e)
    with Cons.prems show ?thesis by (auto simp: at_head_def cleanup_disk)
  next
    case (Inr name)
    have notin: "name \<notin> set (frames s)" "name \<notin> disk0"
      using Cons.prems(1,2) assms(1) Inr by (auto simp: at_head_def fresh_names_def)
    show ?thesis
    proof (cases "ffmpeg env i")
      case (Raised e)
      with Inr Cons.prems notin show ?thesis
        by (auto simp: at_head_def cleanup_disk Let_def)
    next
      case (Completed sz)
      show ?thesis
      proof (cases "sz > 0")
        case True
        let ?s = "s\<lparr>created_temps := created_temps s @ [name], disk := insert name (disk s),
                     calls := calls s @ [Ffmpeg i 30], frames := frames s @ [name]\<rparr>"
        have run: "frame_loop env rest ?s = (exc, s')"
          using Cons.prems(3) Inr Completed True by (simp add: Let_def)
        have head: "at_head env disk0 rest ?s"
          using Cons.prems(1,2) Inr by (auto simp: at_head_def)
        from Cons.IH[OF _ head run] Cons.prems(1) show ?thesis by simp
      next
        case False
        let ?s = "s\<lparr>created_temps := created_temps s @ [name], disk := insert name (disk s),
                     calls := calls s @ [Ffmpeg i 30],
                     disk := insert name (disk s) - {name},
                     created_temps := remove1 name (created_temps s @ [name])\<rparr>"
        have run: "frame_loop env rest ?s = (exc, s')"
          using Cons.prems(3) Inr Completed False by (simp add: Let_def)
        have rm: "remove1 name (created_temps s @ [name]) = created_temps s"
          using notin Cons.prems(2) by (simp add: at_head_def remove1_append)
        have head: "at_head env disk0 rest ?s"
          using Cons.prems(1,2) notin rm by (auto simp: at_head_def)
        from Cons.IH[OF _ head run] Cons.prems(1) show ?thesis by simp
      qed
    qed
  qed
qed

lemma finish_returned:
  "fresh_names env disk0 \<Longrightarrow> distinct rest \<Longrightarrow> at_head env disk0 rest s \<Longrightarrow>
   frame_loop env rest s = (exc, s') \<Longrightarrow>
   (case returned (finish exc s') of
      Inr fs \<Rightarrow> disk_after (finish exc s') = disk0 \<union> set fs
    | Inl e \<Rightarrow> \<not> caught e)"
  using frame_loop_disk[of env disk0 rest s exc s']
  by (cases exc) (auto simp: finish_def)

lemma extract_cleaned:
  assumes "fresh_names env disk0"
  shows "(case returned (extract_video_frames env n disk0) of
            Inr fs \<Rightarrow> disk_after (extract_video_frames env n disk0) = disk0 \<union> set fs
          | Inl e \<Rightarrow> \<not> caught e)"
proof (cases "ffprobe env")
  case None
  let ?s0 = "\<lparr>frames = [], created_temps = [], disk = disk0, calls = [Ffprobe 30]\<rparr>"
  obtain exc s where run: "frame_loop env [0..<nat n] ?s0 = (exc, s)"
    by (cases "frame_loop env [0..<nat n] ?s0")
  have head: "at_head env disk0 [0..<nat n] ?s0" by (simp add: at_head_def)
  have eq: "extract_video_frames env n disk0 = finish exc s"
    using None run by (simp add: extract_video_frames_def)
  show ?thesis unfolding eq
    by (rule finish_returned[OF assms _ head run]) simp
next
  case (Some e)
  then show ?thesis
    by (auto simp: extract_video_frames_def finish_def cleanup_disk Let_def)
qed

lemma two_frames_second_fails:
  assumes "ffprobe env = None" and "mktemp env 0 = Inr a" and "mktemp env 1 = Inr b"
    and "a \<noteq> b" and "a \<notin> disk0" and "b \<notin> disk0"
    and "ffmpeg env 0 = Completed sz" and "sz > 0"
    and "(ffmpeg env 1 = Raised e \<and> caught e) \<or> ffmpeg env 1 = Completed 0"
  shows "returned (extract_video_frames env 2 disk0) = Inr [a]
         \<and> disk_after (extract_video_frames env 2 disk0) = disk0 \<union> {a}"
proof -
  have l: "[0..<2] = [0, Suc 0]" by (simp add: numeral_2_eq_2 upt_rec)
  from assms show ?thesis
    by (auto simp: extract_video_frames_def l Let_def finish_def cleanup_disk)
qed

text \<open>
  C4. With new temporary names, a call that returns leaves on the disk the files that
  were there before and the returned frames, nothing else; a call does not return only
  when an exception outside the handled kinds (time-out, subprocess error, OS error)
  comes up. In particular a request for 2 frames whose first frame is extracted and
  whose second tool call raises a handled exception, or leaves an empty file, returns
  the first frame alone and leaves no other temporary file.
\<close>

theorem temp_files_cleaned:
  assumes "fresh_names env disk0"
  shows "(case returned (extract_video_frames env n disk0) of
            Inr fs \<Rightarrow> disk_after (extract_video_frames env n disk0) = disk0 \<union> set fs
          | Inl e \<Rightarrow> \<not> caught e)
     \<and> (ffprobe env = None \<and> mktemp env 0 = Inr a \<and> mktemp env 1 = Inr b
          \<and> ffmpeg env 0 = Completed sz \<and> sz > 0
          \<and> ((ffmpeg env 1 = Raised e \<and> caught e) \<or> ffmpeg env 1 = Completed 0)
        \<longrightarrow> returned (extract_video_frames env 2 disk0) = Inr [a]
            \<and> disk_after (extract_video_frames env 2 disk0) = disk0 \<union> {a})"
proof -
  have "a \<noteq> b \<and> a \<notin> disk0 \<and> b \<notin> disk0"
    if "mktemp env 0 = Inr a" "mktemp env 1 = Inr b"
    using assms that unfolding fresh_names_def by (metis zero_neq_one)
  then show ?thesis
    using extract_cleaned[OF assms, of n] two_frames_second_fails[of env a b disk0 sz e]
    by blast
qed

theorem temp_files_cleaned_witness:
  "fresh_names second_fails_env {}
   \<and> returned (extract_video_frames second_fails_env 2 {}) = Inr [''/tmp/tmp0.jpg'']
   \<and> disk_after (extract_video_frames second_fails_env 2 {}) = {''/tmp/tmp0.jpg''}"
proof -
  have f: "fresh_names second_fails_env {}"
    by (auto simp: fresh_names_def second_fails_env_def split: if_splits)
  have c: "caught SubprocessError" by (simp add: caught_def)
  from temp_files_cleaned[OF f, of 2 "''/tmp/tmp0.jpg''" "''/tmp/tmp1.jpg''" 2048 SubprocessError] f c
  show ?thesis by (simp add: second_fails_env_def)
qed

lemma frame_returnsD:
  "frame_returns env j \<Longrightarrow> \<exists>name sz. mktemp env j = Inr name \<and> ffmpeg env j = Completed sz"
  by (cases "mktemp env j"; cases "ffmpeg env j") (auto simp: frame_returns_def)

lemma extracted_Nil [simp]: "extracted env [] = []"
  by (simp add: extracted_def)

lemma extracted_Cons:
  "mktemp env j = Inr name \<Longrightarrow> ffmpeg env j = Completed sz \<Longrightarrow>
   extracted env (j # js) = (if sz > 0 then [name] else []) @ extracted env js"
  by (simp add: extracted_def)

lemma frame_loop_returns:
  "\<forall>j \<in> set js. frame_returns env j \<Longrightarrow>
   \<exists>s'. frame_loop env (js @ rest) s = frame_loop env rest s'
        \<and> calls s' = calls s @ map (\<lambda>j. Ffmpeg j 30) js
        \<and> frames s' = frames s @ extracted env js"
proof (induction js arbitrary: s)
  case Nil
  show ?case by (rule exI[of _ s]) simp
next
  case (Cons j js)
  from Cons.prems have "frame_returns env j" by simp
  then obtain name sz where n: "mktemp env j = Inr name" and c: "ffmpeg env j = Completed sz"
    by (auto dest: frame_returnsD)
  let ?s2 = "s\<lparr>created_temps := created_temps s @ [name], disk := insert name (disk s),
                calls := calls s @ [Ffmpeg j 30]\<rparr>"
  let ?s3 = "if sz > 0 then ?s2\<lparr>frames := frames ?s2 @ [name]\<rparr>
             else ?s2\<lparr>disk := disk ?s2 - {name}, created_temps := remove1 name (created_temps ?s2)\<rparr>"
  have step: "frame_loop env ((j # js) @ rest) s = frame_loop env (js @ rest) ?s3"
    by (simp add: n c Let_def)
  have cs: "calls ?s3 = calls s @ [Ffmpeg j 30]" by simp
  have fs: "frames ?s3 = frames s @ (if sz > 0 then [name] else [])" by simp
  from Cons.prems have "\<forall>j \<in> set js. frame_returns env j" by simp
  from Cons.IH[OF this, of ?s3] obtain s' where
    "frame_loop env (js @ rest) ?s3 = frame_loop env rest s'"
    "calls s' = calls ?s3 @ map (\<lambda>j. Ffmpeg j 30) js"
    "frames s' = frames ?s3 @ extracted env js"
    by blast
  with step cs fs show ?case
    by (intro exI[of _ s']) (simp add: extracted_Cons[OF n c])
qed

lemma finish_calls [simp]: "calls_made (finish exc s) = calls s"
  by (cases exc) (simp_all add: finish_def)

lemma finish_frames: "exc = None \<or> (\<exists>e. exc = Some e \<and> caught e) \<Longrightarrow> returned (finish exc s) = Inr (frames s)"
  by (auto simp: finish_def)

lemma all_return:
  assumes "ffprobe env = None" and "\<forall>j < nat n. frame_returns env j"
  shows "calls_made (extract_video_frames env n disk0)
           = Ffprobe 30 # map (\<lambda>j. Ffmpeg j 30) [0..<nat n]
         \<and> returned (extract_video_frames env n disk0) = Inr (extracted env [0..<nat n])"
proof -
  let ?init = "\<lparr>frames = [], created_temps = [], disk = disk0, calls = [Ffprobe 30]\<rparr>"
  from assms(2) have "\<forall>j \<in> set [0..<nat n]. frame_returns env j" by simp
  from frame_loop_returns[OF this, of "[]" ?init] obtain s' where
    "frame_loop env [0..<nat n] ?init = (None, s')"
    "calls s' = Ffprobe 30 # map (\<lambda>j. Ffmpeg j 30) [0..<nat n]"
    "frames s' = extracted env [0..<nat n]"
    by auto
  with assms(1) show ?thesis by (simp add: extract_video_frames_def finish_def)
qed

lemma until_raise:
  assumes "ffprobe env = None" and "i < nat n" and "\<forall>j < i. frame_returns env j"
    and "mktemp env i = Inr a" and "ffmpeg env i = Raised e"
  shows "calls_made (extract_video_frames env n disk0)
           = Ffprobe 30 # map (\<lambda>j. Ffmpeg j 30) [0..<Suc i]
         \<and> returned (extract_video_frames env n disk0)
             = (if caught e then Inr (extracted env [0..<i]) else Inl e)"
proof -
  let ?init = "\<lparr>frames = [], created_temps = [], disk = disk0, calls = [Ffprobe 30]\<rparr>"
  have "[0..<nat n] = [0..<i] @ [i..<nat n]"
    using upt_add_eq_append[of 0 i "nat n - i"] assms(2) by simp
  moreover have "[i..<nat n] = i # [Suc i..<nat n]"
    using assms(2) by (simp add: upt_conv_Cons)
  ultimately have split: "[0..<nat n] = [0..<i] @ i # [Suc i..<nat n]" by simp
  from assms(3) have "\<forall>j \<in> set [0..<i]. frame_returns env j" by simp
  from frame_loop_returns[OF this, of "i # [Suc i..<nat n]" ?init] obtain s' where
    1: "frame_loop env [0..<nat n] ?init = frame_loop env (i # [Suc i..<nat n]) s'"
    and 2: "calls s' = Ffprobe 30 # map (\<lambda>j. Ffmpeg j 30) [0..<i]"
    and 3: "frames s' = extracted env [0..<i]"
    by (auto simp: split)
  have "frame_loop env (i # [Suc i..<nat n]) s'
          = (Some e, s'\<lparr>created_temps := created_temps s' @ [a], disk := insert a (disk s'),
                         calls := calls s' @ [Ffmpeg i 30]\<rparr>)"
    by (simp add: assms(4,5) Let_def)
  with 1 2 3 assms(1) show ?thesis by (simp add: extract_video_frames_def finish_def)
qed

lemma disk_of_returned:
  "fresh_names env disk0 \<Longrightarrow> returned (extract_video_frames env n disk0) = Inr fs \<Longrightarrow>
   disk_after (extract_video_frames env n disk0) = disk0 \<union> set fs"
  using extract_cleaned[of env disk0 n] by simp

lemma frame_loop_timeouts:
  "frame_loop env rest s = (exc, s') \<Longrightarrow> \<forall>c \<in> set (calls s). timeout_of c = 30 \<Longrightarrow>
   \<forall>c \<in> set (calls s'). timeout_of c = 30"
proof (induction rest arbitrary: s)
  case Nil
  then show ?case by simp
next
  case (Cons i rest)
  show ?case
  proof (cases "mktemp env i")
    case (Inl e)
    with Cons.prems show ?thesis by auto
  next
    case (Inr name)
    show ?thesis
    proof (cases "ffmpeg env i")
      case (Raised e)
      with Inr Cons.prems show ?thesis by (auto simp: Let_def timeout_of_def)
    next
      case (Completed sz)
      let ?s2 = "s\<lparr>created_temps := created_temps s @ [name], disk := insert name (disk s),
                calls := calls s @ [Ffmpeg i 30]\<rparr>"
      let ?s3 = "if sz > 0 then ?s2\<lparr>frames := frames ?s2 @ [name]\<rparr>
             else ?s2\<lparr>disk := disk ?s2 - {name}, created_temps := remove1 name (created_temps ?s2)\<rparr>"
      have run: "frame_loop env rest ?s3 = (exc, s')"
        using Cons.prems(1) Inr Completed by (simp add: Let_def split: if_splits)
      have "\<forall>c \<in> set (calls ?s3). timeout_of c = 30"
        using Cons.prems(2) by (simp add: timeout_of_def)
      from Cons.IH[OF run this] show ?thesis .
    qed
  qed
qed

lemma extract_timeouts:
  "\<forall>c \<in> set (calls_made (extract_video_frames env n disk0)). timeout_of c = 30"
proof (cases "ffprobe env")
  case None
  let ?s0 = "\<lparr>frames = [], created_temps = [], disk = disk0, calls = [Ffprobe 30]\<rparr>"
  obtain exc s where run: "frame_loop env [0..<nat n] ?s0 = (exc, s)"
    by (cases "frame_loop env [0..<nat n] ?s0")
  have "\<forall>c \<in> set (calls ?s0). timeout_of c = 30" by (simp add: timeout_of_def)
  from frame_loop_timeouts[OF run this] None run show ?thesis
    by (simp add: extract_video_frames_def)
next
  case (Some e)
  then show ?thesis by (simp add: extract_video_frames_def timeout_of_def)
qed

text \<open>
  C5. The claim: a frame whose tool call fails or times out does not keep the later
  frames from being attempted. In \<open>timeout_env\<close> the call for the first of two frames
  times out, and no call is made for the second.
\<close>

theorem timeout_aborts_sampling:
  "calls_made (extract_video_frames timeout_env 2 {}) = [Ffprobe 30, Ffmpeg 0 30]"
  by (simp add: extract_video_frames_def timeout_env_def upt_rec Let_def)

text \<open>
  C5, as the code has it: every tool call is given a time-out of 30 seconds. When the
  call of every frame returns, all frames are attempted in order and the frames with an
  output that is not empty are returned; a frame with an empty output is not among them
  and, with new temporary names, its file is gone. When the call for frame \<open>i\<close> raises,
  the frames up to \<open>i\<close> have been attempted and no later frame is; if the exception is
  one of the handled kinds (time-out, subprocess error, OS error) the frames extracted
  before \<open>i\<close> are returned and no other temporary file is left, otherwise the exception
  leaves the call.
\<close>

theorem frame_failure_effect:
  assumes "ffprobe env = None"
  shows "(\<forall>c \<in> set (calls_made (extract_video_frames env n disk0)). timeout_of c = 30)
     \<and> ((\<forall>j < nat n. frame_returns env j) \<longrightarrow>
          calls_made (extract_video_frames env n disk0)
            = Ffprobe 30 # map (\<lambda>j. Ffmpeg j 30) [0..<nat n]
          \<and> returned (extract_video_frames env n disk0) = Inr (extracted env [0..<nat n])
          \<and> (fresh_names env disk0 \<longrightarrow>
               disk_after (extract_video_frames env n disk0)
                 = disk0 \<union> set (extracted env [0..<nat n])))
     \<and> (i < nat n \<and> (\<forall>j < i. frame_returns env j) \<and> mktemp env i = Inr a
          \<and> ffmpeg env i = Raised e \<longrightarrow>
          calls_made (extract_video_frames env n disk0)
            = Ffprobe 30 # map (\<lambda>j. Ffmpeg j 30) [0..<Suc i]
          \<and> (caught e \<longrightarrow>
               returned (extract_video_frames env n disk0) = Inr (extracted env [0..<i])
               \<and> (fresh_names env disk0 \<longrightarrow>
                    disk_after (extract_video_frames env n disk0)
                      = disk0 \<union> set (extracted env [0..<i])))
          \<and> (\<not> caught e \<longrightarrow> returned (extract_video_frames env n disk0) = Inl e))
     \<and> (mktemp env j = Inr b \<and> ffmpeg env j = Completed 0 \<longrightarrow> b \<notin> set (extracted env [j]))"
proof -
  have 1: "\<forall>c \<in> set (calls_made (extract_video_frames env n disk0)). timeout_of c = 30"
    by (rule extract_timeouts)
  have 2: "calls_made (extract_video_frames env n disk0)
            = Ffprobe 30 # map (\<lambda>j. Ffmpeg j 30) [0..<nat n]
          \<and> returned (extract_video_frames env n disk0) = Inr (extracted env [0..<nat n])
          \<and> (fresh_names env disk0 \<longrightarrow>
               disk_after (extract_video_frames env n disk0)
                 = disk0 \<union> set (extracted env [0..<nat n]))"
    if "\<forall>j < nat n. frame_returns env j"
    using all_return[OF assms that, of disk0] disk_of_returned[of env disk0 n] by simp
  have 3: "calls_made (extract_video_frames env n disk0)
            = Ffprobe 30 # map (\<lambda>j. Ffmpeg j 30) [0..<Suc i]
          \<and> (caught e \<longrightarrow>
               returned (extract_video_frames env n disk0) = Inr (extracted env [0..<i])
               \<and> (fresh_names env disk0 \<longrightarrow>
                    disk_after (extract_video_frames env n disk0)
                      = disk0 \<union> set (extracted env [0..<i])))
          \<and> (\<not> caught e \<longrightarrow> returned (extract_video_frames env n disk0) = Inl e)"
    if "i < nat n" "\<forall>j < i. frame_returns env j" "mktemp env i = Inr a" "ffmpeg env i = Raised e"
    using until_raise[OF assms that, of disk0] disk_of_returned[of env disk0 n] by simp
  have 4: "b \<notin> set (extracted env [j])" if "mktemp env j = Inr b" "ffmpeg env j = Completed 0"
    using that by (simp add: extracted_def)
  from 1 2 3 4 show ?thesis by blast
qed

theorem frame_failure_effect_witness:
  "ffprobe mixed_env = None \<and> fresh_names mixed_env {} \<and> caught TimeoutExpired
   \<and> calls_made (extract_video_frames mixed_env 4 {})
       = [Ffprobe 30, Ffmpeg 0 30, Ffmpeg 1 30, Ffmpeg 2 30]
   \<and> returned (extract_video_frames mixed_env 4 {}) = Inr [''/tmp/tmp0.jpg'']
   \<and> disk_after (extract_video_frames mixed_env 4 {}) = {''/tmp/tmp0.jpg''}"
proof -
  have p: "ffprobe mixed_env = None" by (simp add: mixed_env_def)
  have f: "fresh_names mixed_env {}"
    by (auto simp: fresh_names_def mixed_env_def split: if_splits)
  have c: "caught TimeoutExpired" by (simp add: caught_def)
  have r: "\<forall>j < 2. frame_returns mixed_env j"
    by (auto simp: frame_returns_def mixed_env_def less_Suc_eq numeral_2_eq_2)
  have m: "mktemp mixed_env 2 = Inr ''/tmp/tmp2.jpg''"
    and g: "ffmpeg mixed_env 2 = Raised TimeoutExpired"
    by (simp_all add: mixed_env_def)
  have e: "extracted mixed_env [0..<2] = [''/tmp/tmp0.jpg'']"
    by (simp add: extracted_def mixed_env_def numeral_2_eq_2)
  have u: "[0..<Suc 2] = [0, 1, 2]" by (simp add: upt_rec numeral_2_eq_2)
  from frame_failure_effect[OF p, of 4 "{}" 2 "''/tmp/tmp2.jpg''" TimeoutExpired] p r m g c f e u
  show ?thesis by simp
qed

section \<open>Properties of the Junk Classifier\<close>

text \<open>
  C7. For every path and size the result of \<open>detect_junk\<close> is junk exactly when one of
  the three reasons applies, and its text is the applicable reasons, in the order size,
  file name marker, corrupted image, joined with a semicolon and a blank; with no reason
  it is \<open>(False, "")\<close>. A file of 500 bytes named \<open>thumbnail_01.jpg\<close> is junk, with a
  text that contains both \<open>very small\<close> and \<open>thumbnail\<close>, whatever the image check says.
\<close>

theorem detect_junk_reasons:
  "detect_junk verify filepath file_size =
     (let small = file_size < 10000;
          marked = (\<exists>p \<in> set [''thumb'', ''thumbnail'', ''.ds_store'', ''desktop.ini'', ''thumbs.db''].
                      contains p (lower (basename filepath)));
          corrupt = (lower (splitext_ext filepath) \<in> set IMAGE_EXTENSIONS \<and> \<not> verify filepath)
      in (small \<or> marked \<or> corrupt,
          join ''; ''
            ((if small then [''very small ('' @ str_int file_size @ '' bytes)''] else []) @
             (if marked then [''thumbnail/system file pattern''] else []) @
             (if corrupt then [''corrupted or unreadable image''] else []))))
   \<and> fst (detect_junk verify ''thumbnail_01.jpg'' 500)
   \<and> contains ''very small'' (snd (detect_junk verify ''thumbnail_01.jpg'' 500))
   \<and> contains ''thumbnail'' (snd (detect_junk verify ''thumbnail_01.jpg'' 500))"
proof -
  have 1: "detect_junk verify filepath file_size =
     (let small = file_size < 10000;
          marked = (\<exists>p \<in> set [''thumb'', ''thumbnail'', ''.ds_store'', ''desktop.ini'', ''thumbs.db''].
                      contains p (lower (basename filepath)));
          corrupt = (lower (splitext_ext filepath) \<in> set IMAGE_EXTENSIONS \<and> \<not> verify filepath)
      in (small \<or> marked \<or> corrupt,
          join ''; ''
            ((if small then [''very small ('' @ str_int file_size @ '' bytes)''] else []) @
             (if marked then [''thumbnail/system file pattern''] else []) @
             (if corrupt then [''corrupted or unreadable image''] else []))))"
    unfolding detect_junk_def Let_def JUNK_SIZE_THRESHOLD_def junk_patterns_def
    by (simp del: set_simps contains.simps)
  have t: "detect_junk (\<lambda>_. True) ''thumbnail_01.jpg'' 500 =
     (True, ''very small (500 bytes); thumbnail/system file pattern'')"
    by code_simp
  have f: "detect_junk (\<lambda>_. False) ''thumbnail_01.jpg'' 500 =
     (True, ''very small (500 bytes); thumbnail/system file pattern; corrupted or unreadable image'')"
    by code_simp
  have c: "detect_junk verify ''thumbnail_01.jpg'' 500
             = detect_junk (\<lambda>_. verify ''thumbnail_01.jpg'') ''thumbnail_01.jpg'' 500"
    by (simp add: detect_junk_def)
  have 2: "fst (detect_junk verify ''thumbnail_01.jpg'' 500)
     \<and> contains ''very small'' (snd (detect_junk verify ''thumbnail_01.jpg'' 500))
     \<and> contains ''thumbnail'' (snd (detect_junk verify ''thumbnail_01.jpg'' 500))"
    unfolding c by (cases "verify ''thumbnail_01.jpg''") (simp_all add: t f)
  from 1 2 show ?thesis by blast
qed

theorem detect_junk_reasons_witness:
  "detect_junk (\<lambda>_. False) ''/photos/Thumbs.db.png'' 120 =
     (True, ''very small (120 bytes); thumbnail/system file pattern; corrupted or unreadable image'')
   \<and> detect_junk (\<lambda>_. True) ''/photos/beach.png'' 250000 = (False, [])"
proof -
  have 1: "lower (basename ''/photos/Thumbs.db.png'') = ''thumbs.db.png''"
    and 2: "lower (splitext_ext ''/photos/Thumbs.db.png'') = ''.png''"
    and 3: "lower (basename ''/photos/beach.png'') = ''beach.png''"
    and 4: "lower (splitext_ext ''/photos/beach.png'') = ''.png''"
    and 5: "str_int 120 = ''120''"
    by code_simp+
  show ?thesis
    using detect_junk_reasons[of "\<lambda>_. False" "''/photos/Thumbs.db.png''" 120]
      detect_junk_reasons[of "\<lambda>_. True" "''/photos/beach.png''" 250000]
    by (simp add: 1 2 3 4 5 Let_def IMAGE_EXTENSIONS_def prefix_def)
qed

declare read_loop.simps [simp del]

section \<open>Properties of the Content Fingerprinter\<close>

lemma read_loop_ok:
  assumes "fails_at f = None" and "n > 0"
  shows "read_loop n f pos sha = Inr (sha @ drop pos (content f))"
  using assms
proof (induction n f pos sha rule: read_loop.induct)
  case (1 n f pos sha)
  let ?chunk = "take n (drop pos (content f))"
  show ?case
  proof (cases "?chunk = []")
    case True
    with 1(3) have "drop pos (content f) = []" by simp
    with 1(2) True show ?thesis
      by (subst read_loop.simps) (simp add: read_fails_def)
  next
    case False
    have nf: "\<not> read_fails f pos (length ?chunk)" using 1(2) by (simp add: read_fails_def)
    have "read_loop n f (pos + length ?chunk) (sha @ ?chunk)
            = Inr ((sha @ ?chunk) @ drop (pos + length ?chunk) (content f))"
      by (rule 1(1)[OF refl nf False 1(2) 1(3)])
    moreover have "?chunk @ drop (pos + length ?chunk) (content f) = drop pos (content f)"
      by (metis add.commute append_take_drop_id drop_drop length_take min.commute take_all_iff
          linorder_le_cases min_def)
    ultimately show ?thesis
      using nf False by (subst read_loop.simps) (simp add: Let_def)
  qed
qed

lemma read_loop_fail:
  assumes "fails_at f = Some k" and "pos \<le> k" and "k < length (content f)" and "n > 0"
  shows "read_loop n f pos sha = Inl IOError"
  using assms
proof (induction n f pos sha rule: read_loop.induct)
  case (1 n f pos sha)
  let ?chunk = "take n (drop pos (content f))"
  show ?case
  proof (cases "read_fails f pos (length ?chunk)")
    case True
    then show ?thesis by (subst read_loop.simps) (simp add: Let_def)
  next
    case False
    with 1(2,3) have le: "pos + length ?chunk \<le> k" by (simp add: read_fails_def)
    have ne: "?chunk \<noteq> []" using 1(3,4,5) by auto
    have "read_loop n f (pos + length ?chunk) (sha @ ?chunk) = Inl IOError"
      by (rule 1(1)[OF refl False ne 1(2) le 1(4) 1(5)])
    with False ne show ?thesis by (subst read_loop.simps) (simp add: Let_def)
  qed
qed

section \<open>Properties of the scan\<close>

lemma takeWhile_stop: "\<not> P c \<Longrightarrow> takeWhile P (xs @ c # ys) = takeWhile P xs"
  by (induction xs) auto

lemma basename_append_slash: "basename (a @ CHR ''/'' # b) = basename b"
  by (simp add: basename_def takeWhile_stop)

lemma basename_join: "basename (join_path a b) = basename b"
proof (cases "b \<noteq> [] \<and> hd b = CHR ''/''")
  case True
  then show ?thesis by (simp add: join_path_def)
next
  case False
  show ?thesis
  proof (cases "a = []")
    case True
    with False show ?thesis by (auto simp: join_path_def)
  next
    case na: False
    show ?thesis
    proof (cases "last a = CHR ''/''")
      case True
      with na have "butlast a @ [CHR ''/''] = a" by (metis append_butlast_last_id)
      then have "a @ b = butlast a @ CHR ''/'' # b" by (metis append.assoc append_Cons append_Nil)
      then have "basename (a @ b) = basename b" by (simp only: basename_append_slash)
      with False True na show ?thesis
        by (simp add: join_path_def)
    next
      case nl: False
      with False na show ?thesis
        by (simp add: join_path_def basename_append_slash)
    qed
  qed
qed

lemma splitext_join: "splitext_ext (join_path a b) = splitext_ext b"
  by (simp add: splitext_ext_def basename_join)

lemma media_ext:
  "lower (splitext_ext p) \<in> set (IMAGE_EXTENSIONS @ VIDEO_EXTENSIONS) \<Longrightarrow> is_media p"
  by (auto simp: is_media_def get_file_type_def Let_def)

lemma yield_files_media: "p \<in> set (yield_files root es) \<Longrightarrow> is_media p"
  unfolding yield_files_def
  by (auto split: entry.splits if_splits intro!: media_ext simp: splitext_join simp del: set_append)

lemma walk_media:
  "\<forall>p \<in> set (walk root es). is_media p" and "\<forall>p \<in> set (walk_dirs root es). is_media p"
  by (induction root es and root es rule: walk_walk_dirs.induct)
     (auto dest: yield_files_media)

lemma discover_files_media: "p \<in> set (discover_files scan_dir tree) \<Longrightarrow> is_media p"
  using walk_media(1) by (auto simp: discover_files_def)

lemma notify_counts:
  "files_found (notify cb ntotal i p s) = files_found s
   \<and> files_processed (notify cb ntotal i p s) = files_processed s
   \<and> length (errors s) \<le> length (errors (notify cb ntotal i p s))
   \<and> (quiet cb \<longrightarrow> errors (notify cb ntotal i p s) = errors s)"
proof (cases cb)
  case None
  then show ?thesis by (simp add: notify_def)
next
  case (Some f)
  show ?thesis
  proof (cases "f (i + 1) ntotal None")
    case None
    with Some show ?thesis by (simp add: notify_def)
  next
    case (Some e)
    with \<open>cb = Some f\<close> have "\<not> quiet cb" by (auto simp: quiet_def)
    with Some \<open>cb = Some f\<close> show ?thesis by (simp add: notify_def)
  qed
qed

lemma store_file_counts:
  "files_found (store_file env cb ntotal i p data s) = files_found s
   \<and> Suc (files_processed s + length (errors s))
        \<le> files_processed (store_file env cb ntotal i p data s)
            + length (errors (store_file env cb ntotal i p data s))
   \<and> (quiet cb \<longrightarrow>
        files_processed (store_file env cb ntotal i p data s)
          + length (errors (store_file env cb ntotal i p data s))
        = Suc (files_processed s + length (errors s)))"
proof -
  define file_size where "file_size = (case map_of data ''file_size'' of Some (PyInt n) \<Rightarrow> n | _ \<Rightarrow> 0)"
  obtain is_junk junk_reason where dj: "detect_junk (verify_image env) p file_size = (is_junk, junk_reason)"
    by (cases "detect_junk (verify_image env) p file_size")
  define data' where "data' = data @ [(''is_junk'', PyInt (if is_junk then 1 else 0)),
                          (''junk_reason'', if is_junk then PyStr junk_reason else PyNone)]"
  have unf: "store_file env cb ntotal i p data s =
     (case upsert_file (db s) data' of
           Inl e \<Rightarrow> s\<lparr>errors := errors s @ [(p, e)]\<rparr>
         | Inr (t, file_id) \<Rightarrow>
             notify cb ntotal i p (s\<lparr>db := t, files_processed := files_processed s + 1\<rparr>))"
    unfolding store_file_def Let_def file_size_def[symmetric] dj data'_def by simp
  show ?thesis
  proof (cases "upsert_file (db s) data'")
    case (Inl e)
    then show ?thesis by (simp add: unf)
  next
    case (Inr r)
    obtain t file_id where r: "r = (t, file_id)" by (cases r)
    let ?s = "s\<lparr>db := t, files_processed := files_processed s + 1\<rparr>"
    have eq: "store_file env cb ntotal i p data s = notify cb ntotal i p ?s"
      by (simp add: unf Inr r)
    from notify_counts[of cb ntotal i p ?s] show ?thesis
      unfolding eq by simp
  qed
qed

lemma process_file_found:
  "files_found (process_file env cb ntotal i p s) = Suc (files_found s)"
  using store_file_counts[of env cb ntotal i p _ "s\<lparr>files_found := files_found s + 1\<rparr>"]
  by (simp add: process_file_def Let_def split: sum.split)

lemma process_file_counts:
  assumes "is_media p"
  shows "Suc (files_processed s + length (errors s))
           \<le> files_processed (process_file env cb ntotal i p s)
               + length (errors (process_file env cb ntotal i p s))
         \<and> (quiet cb \<longrightarrow>
              files_processed (process_file env cb ntotal i p s)
                + length (errors (process_file env cb ntotal i p s))
              = Suc (files_processed s + length (errors s)))"
proof -
  let ?s = "s\<lparr>files_found := files_found s + 1\<rparr>"
  have st: "Suc (files_processed s + length (errors s))
        \<le> files_processed (store_file env cb ntotal i p data ?s)
            + length (errors (store_file env cb ntotal i p data ?s))
     \<and> (quiet cb \<longrightarrow>
        files_processed (store_file env cb ntotal i p data ?s)
          + length (errors (store_file env cb ntotal i p data ?s))
        = Suc (files_processed s + length (errors s)))" for data
    using store_file_counts[of env cb ntotal i p data ?s] by simp
  from assms consider (image) "get_file_type p = ''image''"
    | (video) "get_file_type p \<noteq> ''image''" "get_file_type p = ''video''"
    by (auto simp: is_media_def)
  then show ?thesis
  proof cases
    case image
    show ?thesis
    proof (cases "extract_image_metadata env p")
      case (Inl e)
      with image show ?thesis by (simp add: process_file_def)
    next
      case (Inr data)
      with image st[of data] show ?thesis by (simp add: process_file_def)
    qed
  next
    case video
    show ?thesis
    proof (cases "extract_video_metadata env p")
      case (Inl e)
      with video show ?thesis by (simp add: process_file_def)
    next
      case (Inr data)
      with video st[of data] show ?thesis by (simp add: process_file_def)
    qed
  qed
qed

lemma scan_loop_counts:
  assumes "\<forall>p \<in> set files. is_media p"
  shows "files_found (scan_loop env cb ntotal i files s) = files_found s + length files
     \<and> files_processed s + length (errors s) + length files
          \<le> files_processed (scan_loop env cb ntotal i files s)
              + length (errors (scan_loop env cb ntotal i files s))
     \<and> (quiet cb \<longrightarrow>
          files_processed (scan_loop env cb ntotal i files s)
              + length (errors (scan_loop env cb ntotal i files s))
          = files_processed s + length (errors s) + length files)"
  using assms
proof (induction files arbitrary: i s)
  case Nil
  then show ?case by simp
next
  case (Cons p files)
  from Cons.prems have m: "is_media p" and rest: "\<forall>p \<in> set files. is_media p" by auto
  let ?s = "process_file env cb ntotal i p s"
  note IH = Cons.IH[OF rest, of "Suc i" ?s]
  note step = process_file_counts[OF m, of s env cb ntotal i]
  note found = process_file_found[of env cb ntotal i p s]
  show ?case
    using IH step found by (simp only: scan_loop.simps list.size length_Cons) linarith
qed

text \<open>
  C9. The claim: the number of files found is the number of files processed plus the
  number of errors, no file counting for both. With ten images and a progress callback
  that raises when it is called from the loop, the tenth file is stored and counted
  and the exception of the callback is recorded for it: 10 found, 10 processed, 1 error.
\<close>

theorem scan_counts_with_raising_callback:
  "map_sum id counts_of (scan_directory plain_env (Some needs_label) ''/pics'' ten_images [])
   = Inr (10, 10, 1)"
  by code_simp

text \<open>
  C9, as the code has it: every discovered file is counted as found, and is counted as
  processed or gives an error entry, so the files found are at most the files processed
  plus the errors; the two are equal when no progress callback is given or the callback
  never raises in the loop.
\<close>

theorem scan_counts:
  assumes "scan_directory env cb scan_dir tree t0 = Inr st"
  shows "files_found st = length (discover_files scan_dir tree)
     \<and> files_found st \<le> files_processed st + length (errors st)
     \<and> (quiet cb \<longrightarrow> files_found st = files_processed st + length (errors st))"
proof -
  let ?files = "discover_files scan_dir tree"
  let ?init = "\<lparr>files_found = 0, files_processed = 0, errors = [], db = t0\<rparr>"
  let ?s = "scan_loop env cb (length ?files) 0 ?files ?init"
  from assms have st: "files_found st = files_found ?s" "files_processed st = files_processed ?s"
    "errors st = errors ?s"
    by (auto simp: scan_directory_def Let_def split: option.splits sum.splits)
  have "\<forall>p \<in> set ?files. is_media p" by (auto dest: discover_files_media)
  from scan_loop_counts[OF this, where env = env and cb = cb and ntotal = "length ?files"
      and i = 0 and s = ?init]
  show ?thesis
    unfolding st by simp
qed

theorem scan_counts_witness:
  "quiet None \<and>
   (\<exists>st. scan_directory plain_env None ''/pics'' ten_images [] = Inr st
      \<and> files_found st = 10 \<and> files_found st = files_processed st + length (errors st))"
proof -
  have q: "quiet None" by (simp add: quiet_def)
  have "\<not> isl (scan_directory plain_env None ''/pics'' ten_images [])" by code_simp
  then obtain st where run: "scan_directory plain_env None ''/pics'' ten_images [] = Inr st"
    by (cases "scan_directory plain_env None ''/pics'' ten_images []") auto
  have n: "length (discover_files ''/pics'' ten_images) = 10" by code_simp
  from scan_counts[OF run] q n run show ?thesis by auto
qed

lemma hash_file_ok:
  "opn p = Some f \<Longrightarrow> fails_at f = None \<Longrightarrow> n > 0 \<Longrightarrow>
   hash_file H n opn p = Inr (H (content f))"
  by (simp add: hash_file_def read_loop_ok)

lemma hash_file_fail:
  "opn p = Some f \<Longrightarrow> fails_at f = Some k \<Longrightarrow> k < length (content f) \<Longrightarrow> n > 0 \<Longrightarrow>
   hash_file H n opn p = Inl IOError"
  by (simp add: hash_file_def read_loop_fail)

lemma hash_failure_recorded:
  assumes "is_media p" and "stat env p = Inr st"
    and "compute_file_hash (sha256 env) (open_file env) p = Inl IOError"
  shows "process_file env cb ntotal i p s
           = s\<lparr>files_found := files_found s + 1, errors := errors s @ [(p, IOError)]\<rparr>"
proof -
  have "extract_image_metadata env p = Inl IOError"
    using assms(2,3) by (simp add: extract_image_metadata_def Let_def)
  moreover have "extract_video_metadata env p = Inl IOError"
    using assms(2,3) by (simp add: extract_video_metadata_def Let_def)
  ultimately show ?thesis
    using assms(1) by (auto simp: process_file_def is_media_def Let_def)
qed

text \<open>
  C8. For a file that opens and reads without failure, \<open>compute_file_hash\<close> returns the
  digest of the whole content, and so does the same loop with any positive chunk size.
  When the file cannot be opened, or a byte of it cannot be read, the result is
  \<open>IOError\<close>; the loop of the scan then counts the file as found, records the error for
  its path and goes on with the state otherwise unchanged.
\<close>

theorem compute_file_hash_digest:
  "(open_file env p = Some f \<and> fails_at f = None \<longrightarrow>
      compute_file_hash (sha256 env) (open_file env) p = Inr (sha256 env (content f))
      \<and> (\<forall>n > 0. hash_file (sha256 env) n (open_file env) p = Inr (sha256 env (content f))))
   \<and> (open_file env p = None
        \<or> (open_file env p = Some f \<and> fails_at f = Some k \<and> k < length (content f)) \<longrightarrow>
      compute_file_hash (sha256 env) (open_file env) p = Inl IOError
      \<and> (is_media p \<and> stat env p = Inr st \<longrightarrow>
           process_file env cb ntotal i p s
             = s\<lparr>files_found := files_found s + 1, errors := errors s @ [(p, IOError)]\<rparr>))"
proof -
  have ok: "compute_file_hash (sha256 env) (open_file env) p = Inr (sha256 env (content f))
      \<and> (\<forall>n > 0. hash_file (sha256 env) n (open_file env) p = Inr (sha256 env (content f)))"
    if "open_file env p = Some f" "fails_at f = None"
    using that by (simp add: compute_file_hash_def hash_file_ok)
  have bad: "compute_file_hash (sha256 env) (open_file env) p = Inl IOError"
    if "open_file env p = None
        \<or> (open_file env p = Some f \<and> fails_at f = Some k \<and> k < length (content f))"
    using that by (auto simp: compute_file_hash_def hash_file_fail) (simp add: hash_file_def)
  from ok bad hash_failure_recorded[of p env st cb ntotal i s] show ?thesis by blast
qed

theorem compute_file_hash_digest_witness:
  "compute_file_hash (sha256 abc_env) (open_file abc_env) ''/pics/a.jpg'' = Inr ''abcdefghij''
   \<and> hash_file (sha256 abc_env) 3 (open_file abc_env) ''/pics/a.jpg'' = Inr ''abcdefghij''
   \<and> compute_file_hash (sha256 abc_env) (open_file abc_env) ''/pics/b.jpg'' = Inl IOError
   \<and> compute_file_hash (sha256 abc_env) (open_file abc_env) ''/pics/c.jpg'' = Inl IOError"
proof -
  let ?fa = "\<lparr>content = ''abcdefghij'', fails_at = None\<rparr>"
  let ?fb = "\<lparr>content = ''abcdefghij'', fails_at = Some 4\<rparr>"
  have sha: "sha256 abc_env ''abcdefghij'' = ''abcdefghij''"
    by (simp add: abc_env_def plain_env_def)
  have a: "open_file abc_env ''/pics/a.jpg'' = Some ?fa"
    and b: "open_file abc_env ''/pics/b.jpg'' = Some ?fb"
    and c: "open_file abc_env ''/pics/c.jpg'' = None"
    by (simp_all add: abc_env_def)
  from compute_file_hash_digest[of abc_env "''/pics/a.jpg''" ?fa] a sha
  have 1: "compute_file_hash (sha256 abc_env) (open_file abc_env) ''/pics/a.jpg'' = Inr ''abcdefghij''"
    and 2: "hash_file (sha256 abc_env) 3 (open_file abc_env) ''/pics/a.jpg'' = Inr ''abcdefghij''"
    by auto
  from compute_file_hash_digest[of abc_env "''/pics/b.jpg''" ?fb 4] b
  have 3: "compute_file_hash (sha256 abc_env) (open_file abc_env) ''/pics/b.jpg'' = Inl IOError"
    by simp
  from compute_file_hash_digest[of abc_env "''/pics/c.jpg''"] c
  have 4: "compute_file_hash (sha256 abc_env) (open_file abc_env) ''/pics/c.jpg'' = Inl IOError"
    by simp
  from 1 2 3 4 show ?thesis by simp
qed

end
